theory Spec2Isabelle
  imports Main "HOL-Library.Word"
begin

unbundle bit_operations_syntax

section \<open>Errors\<close>

text \<open>
  The source throws string values; each distinct string is one constructor.
  \<open>TypeError\<close> is the runtime error of reading a property of \<open>undefined\<close>.
\<close>

datatype error =
    VersionOutOfRange   \<comment> \<open>throw "Version number out of range"\<close>
  | AssertionError      \<comment> \<open>throw "Assertion error"\<close>
  | DegreeOutOfRange    \<comment> \<open>throw "Degree out of range"\<close>
  | ByteOutOfRange      \<comment> \<open>throw "Byte out of range"\<close>
  | InvalidArgument     \<comment> \<open>throw "Invalid argument"\<close>
  | TypeError

section \<open>Capacity: getNumRawDataModules\<close>

definition getNumRawDataModules :: "int \<Rightarrow> error + int" where
  "getNumRawDataModules ver =
     (if ver < 1 \<or> ver > 40 then Inl VersionOutOfRange
      else
        let result = (16 * ver + 128) * ver + 64;
            result =
              (if ver \<ge> 2 then
                 let numAlign = ver div 7 + 2;
                     result = result - ((25 * numAlign - 10) * numAlign - 55)
                 in if ver \<ge> 7 then result - 36 else result
               else result)
        in if \<not> (208 \<le> result \<and> result \<le> 29648) then Inl AssertionError
           else Inr result)"

section \<open>GF(2^8) multiplication: reedSolomonMultiply\<close>

text \<open>
  JavaScript's bitwise operators work on 32-bit values: \<open>>>>\<close> reads its operand as an
  unsigned 32-bit integer, \<open><<\<close>, \<open>^\<close> and \<open>&\<close> produce signed 32-bit integers.  The
  accumulator \<open>z\<close> is therefore a \<open>32 word\<close>; an integer-valued number enters the
  bitwise world through \<open>word_of_int\<close> and leaves it through \<open>sint\<close>.
\<close>

definition rs_step :: "32 word \<Rightarrow> 32 word \<Rightarrow> nat \<Rightarrow> 32 word \<Rightarrow> 32 word" where
  "rs_step x y i z =
     (let z = push_bit 1 z XOR (drop_bit 7 z * 0x11D)
      in z XOR ((drop_bit i y AND 1) * x))"

text \<open>The loop \<open>for (i = 7; i >= 0; i--)\<close>; the first argument is \<open>i + 1\<close>.\<close>

fun rs_loop :: "nat \<Rightarrow> 32 word \<Rightarrow> 32 word \<Rightarrow> 32 word \<Rightarrow> 32 word" where
  "rs_loop 0 x y z = z"
| "rs_loop (Suc i) x y z = rs_loop i x y (rs_step x y i z)"

definition reedSolomonMultiply :: "int \<Rightarrow> int \<Rightarrow> error + int" where
  "reedSolomonMultiply x y =
     (let xw = word_of_int x :: 32 word; yw = word_of_int y :: 32 word
      in if drop_bit 8 xw \<noteq> 0 \<or> drop_bit 8 yw \<noteq> 0 then Inl ByteOutOfRange
         else
           let z = rs_loop 8 xw yw 0
           in if drop_bit 8 z \<noteq> 0 then Inl AssertionError else Inr (sint z))"

text \<open>
  \<open>a ^ b\<close> on integer-valued numbers: both operands are read as 32-bit values and the
  result is a signed 32-bit integer.
\<close>

definition xor32 :: "int \<Rightarrow> int \<Rightarrow> int" where
  "xor32 a b = sint ((word_of_int a :: 32 word) XOR word_of_int b)"

section \<open>Generator polynomial: reedSolomonComputeDivisor\<close>

text \<open>
  The inner loop \<open>for (j = 0; j < result.length; j++)\<close> multiplies the running product by
  \<open>(x - root)\<close> in place.
\<close>

function divisor_inner :: "int \<Rightarrow> nat \<Rightarrow> int list \<Rightarrow> error + int list" where
  "divisor_inner root j result =
     (if j < length result then
        (case reedSolomonMultiply (result ! j) root of
           Inl e \<Rightarrow> Inl e
         | Inr m \<Rightarrow>
             divisor_inner root (j + 1)
               (let result = result[j := m]
                in if j + 1 < length result
                   then result[j := xor32 (result ! j) (result ! (j + 1))]
                   else result))
      else Inr result)"
  by pat_completeness auto
termination
  by (relation "measure (\<lambda>(root, j, result). length result - j)") (auto simp add: Let_def)

declare divisor_inner.simps [simp del]

text \<open>The outer loop \<open>for (i = 0; i < degree; i++)\<close>.\<close>

function divisor_outer :: "int \<Rightarrow> int \<Rightarrow> int \<Rightarrow> int list \<Rightarrow> error + int list" where
  "divisor_outer degree i root result =
     (if i < degree then
        (case divisor_inner root 0 result of
           Inl e \<Rightarrow> Inl e
         | Inr result \<Rightarrow>
             (case reedSolomonMultiply root 0x02 of
                Inl e \<Rightarrow> Inl e
              | Inr root \<Rightarrow> divisor_outer degree (i + 1) root result))
      else Inr result)"
  by pat_completeness auto
termination
  by (relation "measure (\<lambda>(degree, i, root, result). nat (degree - i))") auto

declare divisor_outer.simps [simp del]

text \<open>
  The first loop pushes \<open>degree - 1\<close> zeros; then the monomial \<open>x^0\<close> is pushed.
\<close>

definition reedSolomonComputeDivisor :: "int \<Rightarrow> error + int list" where
  "reedSolomonComputeDivisor degree =
     (if degree < 1 \<or> degree > 255 then Inl DegreeOutOfRange
      else divisor_outer degree 0 1 (replicate (nat (degree - 1)) 0 @ [1]))"

section \<open>Polynomial remainder: reedSolomonComputeRemainder\<close>

text \<open>
  \<open>result[i] ^= v\<close>.  A read beyond the end of an array yields \<open>undefined\<close>, which \<open>^\<close>
  coerces to 0, and the assignment extends the array.  An index beyond the length
  would leave holes, written as 0 here; \<open>forEach\<close> visits the indices from 0 upwards,
  so it never skips a position.
\<close>

definition xor_assign :: "int list \<Rightarrow> nat \<Rightarrow> int \<Rightarrow> int list" where
  "xor_assign result i v =
     (if i < length result then result[i := xor32 (result ! i) v]
      else result @ replicate (i - length result) 0 @ [xor32 0 v])"

text \<open>\<open>divisor.forEach((coef, i) => result[i] ^= reedSolomonMultiply(coef, factor))\<close>\<close>

function remainder_forEach :: "int list \<Rightarrow> int \<Rightarrow> nat \<Rightarrow> int list \<Rightarrow> error + int list" where
  "remainder_forEach divisor factor i result =
     (if i < length divisor then
        (case reedSolomonMultiply (divisor ! i) factor of
           Inl e \<Rightarrow> Inl e
         | Inr m \<Rightarrow> remainder_forEach divisor factor (i + 1) (xor_assign result i m))
      else Inr result)"
  by pat_completeness auto
termination
  by (relation "measure (\<lambda>(divisor, factor, i, result). length divisor - i)") auto

declare remainder_forEach.simps [simp del]

text \<open>
  \<open>result.shift()\<close> removes and returns the first element; on an empty array it
  returns \<open>undefined\<close> (coerced to 0 by \<open>^\<close>) and leaves the array empty.
\<close>

definition shift :: "int list \<Rightarrow> int \<times> int list" where
  "shift result = (case result of [] \<Rightarrow> (0, []) | r # rs \<Rightarrow> (r, rs))"

text \<open>The loop \<open>for (const b of data)\<close>.\<close>

fun remainder_loop :: "int list \<Rightarrow> int list \<Rightarrow> int list \<Rightarrow> error + int list" where
  "remainder_loop divisor [] result = Inr result"
| "remainder_loop divisor (b # data) result =
     (let (r, result) = shift result;
          factor = xor32 b r;
          result = result @ [0]
      in case remainder_forEach divisor factor 0 result of
           Inl e \<Rightarrow> Inl e
         | Inr result \<Rightarrow> remainder_loop divisor data result)"

definition reedSolomonComputeRemainder :: "int list \<Rightarrow> int list \<Rightarrow> error + int list" where
  "reedSolomonComputeRemainder data divisor =
     remainder_loop divisor data (map (\<lambda>_. 0) divisor)"

section \<open>Capacity: getNumDataCodewords\<close>

text \<open>
  The two capacity tables are fields of the \<open>QRCode\<close> object and are indexed first by
  \<open>ErrorCorrectionLevels[ecl]\<close>, then by the version.  Neither the tables nor
  \<open>ErrorCorrectionLevels\<close> are defined in this module: the tables are arbitrary
  integer-valued fields of the record, and the level index is a parameter.
\<close>

record QRCode =
  version :: int
  error_correction_level :: string
  ECC_CODEWORDS_PER_BLOCK :: "nat \<Rightarrow> int \<Rightarrow> int"
  NUM_ERROR_CORRECTION_BLOCKS :: "nat \<Rightarrow> int \<Rightarrow> int"

definition getNumDataCodewords :: "(string \<Rightarrow> nat) \<Rightarrow> int \<Rightarrow> QRCode \<Rightarrow> error + int" where
  "getNumDataCodewords ErrorCorrectionLevels ver QrCode =
     (let ecl = error_correction_level QrCode
      in case getNumRawDataModules ver of
           Inl e \<Rightarrow> Inl e
         | Inr raw \<Rightarrow>
             Inr (raw div 8 -
                  ECC_CODEWORDS_PER_BLOCK QrCode (ErrorCorrectionLevels ecl) ver *
                  NUM_ERROR_CORRECTION_BLOCKS QrCode (ErrorCorrectionLevels ecl) ver))"

section \<open>Block splitting and interleaving: addEccAndInterleave\<close>

text \<open>
  \<open>Array.prototype.slice(start, end)\<close>: a negative index counts from the end of the
  array, and both indices are clamped to the array.
\<close>

definition slice_array :: "'a list \<Rightarrow> int \<Rightarrow> int \<Rightarrow> 'a list" where
  "slice_array xs lo hi =
     (let len = int (length xs);
          k = (if lo < 0 then max (len + lo) 0 else min lo len);
          final = (if hi < 0 then max (len + hi) 0 else min hi len)
      in take (nat (final - k)) (drop (nat k) xs))"

text \<open>
  The two derived block parameters.  They are used only by the splitting loop, which
  runs only when \<open>numBlocks \<ge> 1\<close>; there \<open>%\<close> and \<open>Math.floor(_ / _)\<close> on a positive
  dividend agree with \<open>mod\<close> and \<open>div\<close>.
\<close>

definition numShortBlocks :: "int \<Rightarrow> int \<Rightarrow> int" where
  "numShortBlocks numBlocks rawCodewords = numBlocks - rawCodewords mod numBlocks"

definition shortBlockLen :: "int \<Rightarrow> int \<Rightarrow> int" where
  "shortBlockLen numBlocks rawCodewords = rawCodewords div numBlocks"

text \<open>
  The loop \<open>for (i = 0, k = 0; i < numBlocks; i++)\<close> that cuts the data into blocks and
  appends the error-correction codewords of each block.
\<close>

function split_blocks ::
  "int list \<Rightarrow> int list \<Rightarrow> int \<Rightarrow> int \<Rightarrow> int \<Rightarrow> int \<Rightarrow> int \<Rightarrow> int \<Rightarrow> int list list
     \<Rightarrow> error + int list list" where
  "split_blocks data rsDiv numBlocks blockEccLen nShort sLen i k blocks =
     (if i < numBlocks then
        (let dat = slice_array data k (k + sLen - blockEccLen + (if i < nShort then 0 else 1))
         in case reedSolomonComputeRemainder dat rsDiv of
              Inl e \<Rightarrow> Inl e
            | Inr ecc \<Rightarrow>
                split_blocks data rsDiv numBlocks blockEccLen nShort sLen (i + 1)
                  (k + int (length dat))
                  (blocks @ [(if i < nShort then dat @ [0] else dat) @ ecc]))
      else Inr blocks)"
  by pat_completeness auto
termination
  by (relation "measure (\<lambda>(data, rsDiv, numBlocks, blockEccLen, nShort, sLen, i, k, blocks).
        nat (numBlocks - i))") auto

declare split_blocks.simps [simp del]

text \<open>
  \<open>block[i]\<close>: a read beyond the end of the array yields \<open>undefined\<close>, written \<open>None\<close>.
\<close>

definition js_get :: "'a list \<Rightarrow> nat \<Rightarrow> 'a option" where
  "js_get xs i = (if i < length xs then Some (xs ! i) else None)"

text \<open>
  One pass of \<open>blocks.forEach((block, j) => ...)\<close> for a fixed \<open>i\<close>: the bytes pushed
  onto the result, in order.
\<close>

definition interleave_row :: "int \<Rightarrow> int \<Rightarrow> int \<Rightarrow> int list list \<Rightarrow> nat \<Rightarrow> int option list" where
  "interleave_row blockEccLen nShort sLen blocks i =
     map (\<lambda>(j, block). js_get block i)
       (filter (\<lambda>(j, block). int i \<noteq> sLen - blockEccLen \<or> int j \<ge> nShort)
          (enumerate 0 blocks))"

text \<open>
  The interleaving loop \<open>for (i = 0; i < blocks[0].length; i++)\<close> and the final length
  assertion.  With no block at all, \<open>blocks[0]\<close> is \<open>undefined\<close> and reading its
  \<open>length\<close> is a \<open>TypeError\<close>.
\<close>

definition interleave :: "int \<Rightarrow> int \<Rightarrow> int \<Rightarrow> int \<Rightarrow> int list list \<Rightarrow> error + int option list" where
  "interleave blockEccLen nShort sLen rawCodewords blocks =
     (case blocks of
        [] \<Rightarrow> Inl TypeError
      | block0 # _ \<Rightarrow>
          let result = concat (map (interleave_row blockEccLen nShort sLen blocks)
                                 [0..<length block0])
          in if int (length result) \<noteq> rawCodewords then Inl AssertionError
             else Inr result)"

definition addEccAndInterleave ::
  "(string \<Rightarrow> nat) \<Rightarrow> int list \<Rightarrow> QRCode \<Rightarrow> error + int option list" where
  "addEccAndInterleave ErrorCorrectionLevels data QrCode =
     (let ver = version QrCode;
          ecl = error_correction_level QrCode
      in case getNumDataCodewords ErrorCorrectionLevels ver QrCode of
           Inl e \<Rightarrow> Inl e
         | Inr n \<Rightarrow>
             if int (length data) \<noteq> n then Inl InvalidArgument
             else
               let numBlocks = NUM_ERROR_CORRECTION_BLOCKS QrCode (ErrorCorrectionLevels ecl) ver;
                   blockEccLen = ECC_CODEWORDS_PER_BLOCK QrCode (ErrorCorrectionLevels ecl) ver
               in case getNumRawDataModules ver of
                    Inl e \<Rightarrow> Inl e
                  | Inr raw \<Rightarrow>
                      let rawCodewords = raw div 8;
                          nShort = numShortBlocks numBlocks rawCodewords;
                          sLen = shortBlockLen numBlocks rawCodewords
                      in case reedSolomonComputeDivisor blockEccLen of
                           Inl e \<Rightarrow> Inl e
                         | Inr rsDiv \<Rightarrow>
                             (case split_blocks data rsDiv numBlocks blockEccLen nShort sLen 0 0 [] of
                                Inl e \<Rightarrow> Inl e
                              | Inr blocks \<Rightarrow>
                                  interleave blockEccLen nShort sLen rawCodewords blocks))"

text \<open>
  The array \<open>blocks\<close> as it stands when the splitting loop of \<open>addEccAndInterleave\<close> has
  finished: the same statements, stopped before the interleaving loop.
\<close>

definition ecc_blocks :: "(string \<Rightarrow> nat) \<Rightarrow> int list \<Rightarrow> QRCode \<Rightarrow> error + int list list" where
  "ecc_blocks ErrorCorrectionLevels data QrCode =
     (let ver = version QrCode;
          ecl = error_correction_level QrCode
      in case getNumDataCodewords ErrorCorrectionLevels ver QrCode of
           Inl e \<Rightarrow> Inl e
         | Inr n \<Rightarrow>
             if int (length data) \<noteq> n then Inl InvalidArgument
             else
               let numBlocks = NUM_ERROR_CORRECTION_BLOCKS QrCode (ErrorCorrectionLevels ecl) ver;
                   blockEccLen = ECC_CODEWORDS_PER_BLOCK QrCode (ErrorCorrectionLevels ecl) ver
               in case getNumRawDataModules ver of
                    Inl e \<Rightarrow> Inl e
                  | Inr raw \<Rightarrow>
                      let rawCodewords = raw div 8;
                          nShort = numShortBlocks numBlocks rawCodewords;
                          sLen = shortBlockLen numBlocks rawCodewords
                      in case reedSolomonComputeDivisor blockEccLen of
                           Inl e \<Rightarrow> Inl e
                         | Inr rsDiv \<Rightarrow>
                             split_blocks data rsDiv numBlocks blockEccLen nShort sLen 0 0 [])"

section \<open>The data bytes of each block, as the specification words the split\<close>

text \<open>
  The first \<open>numShortBlocks\<close> blocks receive \<open>shortBlockLen - blockEccLen\<close> data bytes,
  the others one more, cut from \<open>data\<close> one after the other: block \<open>j\<close> starts where
  the blocks before it end.
\<close>

definition block_start :: "int \<Rightarrow> int \<Rightarrow> int \<Rightarrow> int \<Rightarrow> int" where
  "block_start blockEccLen nShort sLen j = j * (sLen - blockEccLen) + max 0 (j - nShort)"

definition block_data_len :: "int \<Rightarrow> int \<Rightarrow> int \<Rightarrow> int \<Rightarrow> int" where
  "block_data_len blockEccLen nShort sLen j = sLen - blockEccLen + (if j < nShort then 0 else 1)"

definition block_data :: "int list \<Rightarrow> int \<Rightarrow> int \<Rightarrow> int \<Rightarrow> int \<Rightarrow> int list" where
  "block_data data blockEccLen nShort sLen j =
     take (nat (block_data_len blockEccLen nShort sLen j))
       (drop (nat (block_start blockEccLen nShort sLen j)) data)"

section \<open>reedSolomonComputeRemainder on shared arrays\<close>

text \<open>
  \<open>data\<close> and \<open>divisor\<close> are references to arrays that the caller keeps using; the
  functions below are the statements of \<open>reedSolomonComputeRemainder\<close> acting on a store
  of arrays.
\<close>

text \<open>
  References are addresses; the store maps every address to the array it holds, and
  \<open>next_ref\<close> is the first address not yet allocated.
\<close>

type_synonym ref = nat

record heap =
  cells :: "ref \<Rightarrow> int list"
  next_ref :: ref

text \<open>A new array: \<open>divisor.map(_ => 0)\<close> and every array literal allocate one.\<close>

definition new_array :: "int list \<Rightarrow> heap \<Rightarrow> ref \<times> heap" where
  "new_array xs h =
     (next_ref h, h\<lparr>cells := (cells h)(next_ref h := xs), next_ref := Suc (next_ref h)\<rparr>)"

text \<open>Replacing the contents of the array at a reference.\<close>

definition store :: "ref \<Rightarrow> int list \<Rightarrow> heap \<Rightarrow> heap" where
  "store r xs h = h\<lparr>cells := (cells h)(r := xs)\<rparr>"

text \<open>
  \<open>divisor.forEach((coef, i) => result[i] ^= reedSolomonMultiply(coef, factor))\<close>, on the
  store: the length and the coefficients of \<open>divisor\<close> are read at every step, \<open>result\<close>
  is written.  A throw leaves the store as it stands.
\<close>

function remainder_forEach_st :: "ref \<Rightarrow> ref \<Rightarrow> int \<Rightarrow> nat \<Rightarrow> heap \<Rightarrow> error option \<times> heap" where
  "remainder_forEach_st divisor result factor i h =
     (if i < length (cells h divisor) then
        (case reedSolomonMultiply (cells h divisor ! i) factor of
           Inl e \<Rightarrow> (Some e, h)
         | Inr m \<Rightarrow>
             remainder_forEach_st divisor result factor (i + 1)
               (store result (xor_assign (cells h result) i m) h))
      else (None, h))"
  by pat_completeness auto
termination
  by (relation "measure (\<lambda>(divisor, result, factor, i, h). length (cells h divisor) - i)")
    (auto simp add: store_def xor_assign_def)

declare remainder_forEach_st.simps [simp del]

text \<open>
  The loop \<open>for (const b of data)\<close> on the store.  The array iterator reads
  \<open>data.length\<close> and \<open>data[n]\<close> afresh at every step, so for arbitrary references the
  loop is defined as a partial function; \<open>None\<close> is a loop that does not end.
\<close>

partial_function (option) remainder_loop_st ::
  "ref \<Rightarrow> ref \<Rightarrow> ref \<Rightarrow> nat \<Rightarrow> heap \<Rightarrow> (error option \<times> heap) option" where
  "remainder_loop_st data divisor result n h =
     (if n < length (cells h data) then
        (let b = cells h data ! n;
             (r, rest) = shift (cells h result);
             factor = xor32 b r;
             h = store result (rest @ [0]) h
         in case remainder_forEach_st divisor result factor 0 h of
              (Some e, h) \<Rightarrow> Some (Some e, h)
            | (None, h) \<Rightarrow> remainder_loop_st data divisor result (n + 1) h)
      else Some (None, h))"

declare remainder_loop_st.simps [code]

text \<open>
  \<open>reedSolomonComputeRemainder\<close> on the store: it allocates \<open>result\<close> and returns its
  reference, or the error thrown, together with the store it leaves behind.
\<close>

definition reedSolomonComputeRemainder_st ::
  "ref \<Rightarrow> ref \<Rightarrow> heap \<Rightarrow> ((error + ref) \<times> heap) option" where
  "reedSolomonComputeRemainder_st data divisor h =
     (let (result, h) = new_array (map (\<lambda>_. 0) (cells h divisor)) h
      in case remainder_loop_st data divisor result 0 h of
           None \<Rightarrow> None
         | Some (Some e, h) \<Rightarrow> Some (Inl e, h)
         | Some (None, h) \<Rightarrow> Some (Inr result, h))"

section \<open>Bytes\<close>

text \<open>A byte as a 32-bit value, and as an integer-valued number.\<close>

definition is_byte :: "32 word \<Rightarrow> bool" where
  "is_byte z \<longleftrightarrow> take_bit 8 z = z"

definition is_byte_int :: "int \<Rightarrow> bool" where
  "is_byte_int x \<longleftrightarrow> 0 \<le> x \<and> x \<le> 255"

text \<open>The doubling step of the multiplication loop: shift left, reduce by \<open>0x11D\<close>.\<close>

definition dbl :: "32 word \<Rightarrow> 32 word" where
  "dbl z = push_bit 1 z XOR (drop_bit 7 z * 0x11D)"

text \<open>A sequence of bytes.\<close>

definition bytes :: "int list \<Rightarrow> bool" where
  "bytes xs \<longleftrightarrow> (\<forall>x\<in>set xs. is_byte_int x)"

section \<open>The closed form of the raw module count, as the specification words it\<close>

text \<open>
  \<open>(16 v + 128) v + 64\<close>, less \<open>(25 a - 10) a - 55\<close> with \<open>a = \<lfloor>v / 7\<rfloor> + 2\<close> when
  \<open>v \<ge> 2\<close>, less a further 36 when \<open>v \<ge> 7\<close>.
\<close>

definition rawModulesFormula :: "int \<Rightarrow> int" where
  "rawModulesFormula v =
     (16 * v + 128) * v + 64
     - (if v \<ge> 2 then (25 * (v div 7 + 2) - 10) * (v div 7 + 2) - 55 else 0)
     - (if v \<ge> 7 then 36 else 0)"

section \<open>Two sample configurations\<close>

text \<open>
  Two entries of the capacity tables of the QR Code standard, used as concrete inputs:
  version 1 at level L (one block, 7 error-correction codewords) and version 5 at
  level Q (four blocks, 18 error-correction codewords each).  The indices given to the
  levels are a choice of these samples.
\<close>

definition sample_levels :: "string \<Rightarrow> nat" where
  "sample_levels ecl =
     (if ecl = ''L'' then 0 else if ecl = ''M'' then 1 else if ecl = ''Q'' then 2 else 3)"

definition sample_ecc_table :: "nat \<Rightarrow> int \<Rightarrow> int" where
  "sample_ecc_table l v = (if l = 0 \<and> v = 1 then 7 else if l = 2 \<and> v = 5 then 18 else 0)"

definition sample_blocks_table :: "nat \<Rightarrow> int \<Rightarrow> int" where
  "sample_blocks_table l v = (if l = 0 \<and> v = 1 then 1 else if l = 2 \<and> v = 5 then 4 else 0)"

definition sample_qr_1L :: QRCode where
  "sample_qr_1L = \<lparr>version = 1, error_correction_level = ''L'',
     ECC_CODEWORDS_PER_BLOCK = sample_ecc_table,
     NUM_ERROR_CORRECTION_BLOCKS = sample_blocks_table\<rparr>"

definition sample_qr_5Q :: QRCode where
  "sample_qr_5Q = \<lparr>version = 5, error_correction_level = ''Q'',
     ECC_CODEWORDS_PER_BLOCK = sample_ecc_table,
     NUM_ERROR_CORRECTION_BLOCKS = sample_blocks_table\<rparr>"

definition sample_data_1L :: "int list" where
  "sample_data_1L =
     [32, 41, 205, 69, 41, 220, 46, 128, 236, 17, 236, 17, 236, 17, 236, 17, 236, 17, 236]"

definition sample_data_5Q :: "int list" where
  "sample_data_5Q = replicate 62 236"

text \<open>
  A table with one block and no error-correction codewords at version 1, and 26 data
  bytes for it.
\<close>

definition sample_qr_1L_no_ecc :: QRCode where
  "sample_qr_1L_no_ecc = \<lparr>version = 1, error_correction_level = ''L'',
     ECC_CODEWORDS_PER_BLOCK = (\<lambda>l v. 0),
     NUM_ERROR_CORRECTION_BLOCKS = sample_blocks_table\<rparr>"

definition sample_data_26 :: "int list" where
  "sample_data_26 = replicate 26 0"

text \<open>A store with two arrays: three data bytes at 0, a divisor of degree 3 at 1.\<close>

definition sample_heap :: heap where
  "sample_heap = \<lparr>cells = (\<lambda>_. [])(0 := [32, 91, 11], 1 := [127, 122, 154]), next_ref = 2\<rparr>"

section \<open>Bytes as 32-bit values\<close>

lemma is_byte_bit: "is_byte z \<longleftrightarrow> (\<forall>n\<ge>8. \<not> bit z n)"
proof
  assume b: "is_byte z"
  show "\<forall>n\<ge>8. \<not> bit z n"
  proof (intro allI impI)
    fix n :: nat assume "8 \<le> n"
    then have "\<not> bit (take_bit 8 z) n" by (simp add: bit_take_bit_iff)
    with b show "\<not> bit z n" by (simp add: is_byte_def)
  qed
next
  assume h: "\<forall>n\<ge>8. \<not> bit z n"
  have "take_bit 8 z = z"
  proof (rule bit_eqI)
    fix n
    show "bit (take_bit 8 z) n = bit z n"
      using h by (cases "n < 8") (simp_all add: bit_take_bit_iff)
  qed
  then show "is_byte z" by (simp add: is_byte_def)
qed

lemma is_byte_less: "is_byte z \<longleftrightarrow> z < 256"
  using mask_eq_iff_w2p [of 8 z] by (simp add: take_bit_eq_mask word_size is_byte_def)

lemma is_byte_drop: "is_byte z \<longleftrightarrow> drop_bit 8 z = 0"
  unfolding is_byte_def
  by (simp add: take_bit_eq_self_iff_drop_bit_eq_0)

lemma is_byte_xor: "is_byte a \<Longrightarrow> is_byte b \<Longrightarrow> is_byte (a XOR b)"
  by (simp add: is_byte_def)

lemma is_byte_0: "is_byte 0" by (simp add: is_byte_def)

lemma drop7_byte: "is_byte z \<Longrightarrow> drop_bit 7 z = of_bool (bit z 7)"
proof (rule bit_eqI)
  fix n
  assume b: "is_byte z"
  show "bit (drop_bit 7 z) n = bit (of_bool (bit z 7) :: 32 word) n"
  proof (cases n)
    case 0
    then show ?thesis by (simp add: bit_simps)
  next
    case (Suc m)
    with b have "\<not> bit z (7 + n)" by (simp add: is_byte_bit)
    with Suc show ?thesis by (simp add: bit_simps)
  qed
qed

lemma bit_11D: "bit (0x11D :: 32 word) n \<longleftrightarrow> n \<in> {0, 2, 3, 4, 8}"
proof -
  have "(0x11D :: 32 word) = 2^0 OR 2^2 OR 2^3 OR 2^4 OR 2^8" by simp
  then show ?thesis
    by (simp only: bit_or_iff bit_exp_iff) (auto simp: possible_bit_word)
qed

lemma bit_dbl: 
  assumes "is_byte z"
  shows "bit (dbl z) n \<longleftrightarrow> ((1 \<le> n \<and> n < 32 \<and> bit z (n - 1)) \<noteq> (bit z 7 \<and> n \<in> {0, 2, 3, 4, 8}))"
proof -
  have "bit (dbl z) n \<longleftrightarrow> (bit (push_bit 1 z) n \<noteq> bit (of_bool (bit z 7) * 0x11D :: 32 word) n)"
    unfolding dbl_def by (simp only: drop7_byte [OF assms] bit_xor_iff)
  also have "bit (push_bit 1 z) n \<longleftrightarrow> 1 \<le> n \<and> n < 32 \<and> bit z (n - 1)"
    by (simp only: bit_push_bit_iff possible_bit_word) auto
  also have "bit (of_bool (bit z 7) * 0x11D :: 32 word) n \<longleftrightarrow> bit z 7 \<and> n \<in> {0, 2, 3, 4, 8}"
    by (cases "bit z 7") (simp_all only: of_bool_eq mult_1 mult_zero_left bit_11D bit_0_eq, simp_all)
  finally show ?thesis .
qed

lemma is_byte_dbl: 
  assumes "is_byte z" shows "is_byte (dbl z)"
proof -
  have "\<not> bit (dbl z) n" if "n \<ge> 8" for n
  proof (cases "n = 8")
    case True
    then show ?thesis using assms by (simp add: bit_dbl)
  next
    case False
    with that have "n \<ge> 9" by simp
    then have "\<not> bit z (n - 1)" using assms by (simp add: is_byte_bit)
    with \<open>n \<ge> 9\<close> show ?thesis using assms by (simp add: bit_dbl)
  qed
  then show ?thesis by (simp add: is_byte_bit)
qed

lemma dbl_xor: 
  assumes "is_byte a" "is_byte b" shows "dbl (a XOR b) = dbl a XOR dbl b"
proof (rule bit_eqI)
  fix n
  show "bit (dbl (a XOR b)) n = bit (dbl a XOR dbl b) n"
    by (simp only: bit_xor_iff bit_dbl [OF assms(1)] bit_dbl [OF assms(2)]
         bit_dbl [OF is_byte_xor [OF assms]]) auto
qed

lemma sel_bit: "(drop_bit i y AND 1) * x = (if bit y i then x else (0::32 word))"
  by (simp add: and_one_eq bit_iff_odd_drop_bit mod_2_eq_odd)

lemma rs_step_eq: "rs_step x y i z = dbl z XOR (if bit y i then x else 0)"
  by (simp only: rs_step_def dbl_def sel_bit Let_def)

section \<open>Properties of reedSolomonMultiply\<close>

lemma rs_loop_8: "rs_loop 8 x y z =
   rs_step x y 0 (rs_step x y 1 (rs_step x y 2 (rs_step x y 3
     (rs_step x y 4 (rs_step x y 5 (rs_step x y 6 (rs_step x y 7 z)))))))"
  by (simp add: eval_nat_numeral)

lemma uint_byte_word: "is_byte_int x \<Longrightarrow> uint (word_of_int x :: 32 word) = x"
  by (simp add: is_byte_int_def uint_word_of_int)

lemma is_byte_word_of_int: "is_byte_int x \<Longrightarrow> is_byte (word_of_int x)"
  by (simp add: is_byte_less word_less_alt uint_byte_word) (simp add: is_byte_int_def)

lemma sint_is_byte:
  assumes "is_byte z"
  shows "sint z = uint z" and "is_byte_int (sint z)"
proof -
  have u: "uint z < 256" using assms by (simp add: is_byte_less word_less_alt)
  have "sint z = signed_take_bit 31 (uint z)" by (simp add: sint_uint)
  also have "\<dots> = uint z"
  proof (rule signed_take_bit_int_eq_self)
    have "(0::int) \<le> uint z" by simp
    then show "- (2 ^ 31) \<le> uint z" by (rule order_trans [rotated]) simp
    show "uint z < 2 ^ 31" using u by simp
  qed
  finally show "sint z = uint z" .
  with u show "is_byte_int (sint z)" by (simp add: is_byte_int_def)
qed

lemma is_byte_rs_step: "is_byte x \<Longrightarrow> is_byte z \<Longrightarrow> is_byte (rs_step x y i z)"
  by (simp add: rs_step_eq is_byte_xor is_byte_dbl is_byte_0)

lemma is_byte_rs_loop: "is_byte x \<Longrightarrow> is_byte z \<Longrightarrow> is_byte (rs_loop n x y z)"
  by (induction n arbitrary: z) (simp_all add: is_byte_rs_step)

lemma reedSolomonMultiply_bytes:
  assumes "is_byte_int x" "is_byte_int y"
  shows "reedSolomonMultiply x y = Inr (uint (rs_loop 8 (word_of_int x) (word_of_int y) 0))"
    and "is_byte (rs_loop 8 (word_of_int x) (word_of_int y) 0)"
proof -
  let ?z = "rs_loop 8 (word_of_int x) (word_of_int y) 0 :: 32 word"
  have bx: "is_byte (word_of_int x)" and by': "is_byte (word_of_int y)"
    using assms by (simp_all add: is_byte_word_of_int)
  show bz: "is_byte ?z" using bx by (simp add: is_byte_rs_loop is_byte_0)
  show "reedSolomonMultiply x y = Inr (uint ?z)"
    using bx by' bz unfolding reedSolomonMultiply_def Let_def
    by (simp only: is_byte_drop sint_is_byte(1) [OF bz]) simp
qed

lemma reedSolomonMultiply_closed:
  assumes "is_byte_int x" "is_byte_int y"
  shows "\<exists>r. reedSolomonMultiply x y = Inr r \<and> is_byte_int r"
  using reedSolomonMultiply_bytes [OF assms] sint_is_byte [of "rs_loop 8 (word_of_int x) (word_of_int y) 0"]
  by simp

lemma dbl_0: "dbl 0 = 0" by (simp add: dbl_def)

lemma rs_loop_x0: "rs_loop n 0 y 0 = 0"
  by (induction n) (simp_all add: rs_step_eq dbl_0)

lemma rs_loop_y0: "rs_loop n x 0 0 = 0"
  by (induction n) (simp_all add: rs_step_eq dbl_0)

lemma rs_loop_y1: "rs_loop 8 x 1 0 = x"
  by (simp add: rs_loop_8 rs_step_eq dbl_0 bit_1_iff)

lemma rs_loop_xor_x:
  assumes "is_byte a" "is_byte b"
  shows "is_byte u \<Longrightarrow> is_byte v \<Longrightarrow>
    rs_loop n (a XOR b) y (u XOR v) = rs_loop n a y u XOR rs_loop n b y v"
proof (induction n arbitrary: u v)
  case 0
  then show ?case by simp
next
  case (Suc n)
  have "rs_step (a XOR b) y n (u XOR v) = rs_step a y n u XOR rs_step b y n v"
    using Suc.prems by (simp add: rs_step_eq dbl_xor xor.assoc xor.left_commute)
  then show ?case
    using Suc.IH [of "rs_step a y n u" "rs_step b y n v"] Suc.prems assms
    by (simp add: is_byte_rs_step)
qed

lemma rs_loop_xor_y:
  assumes "is_byte x"
  shows "is_byte u \<Longrightarrow> is_byte v \<Longrightarrow>
    rs_loop n x (a XOR b) (u XOR v) = rs_loop n x a u XOR rs_loop n x b v"
proof (induction n arbitrary: u v)
  case 0
  then show ?case by simp
next
  case (Suc n)
  have "rs_step x (a XOR b) n (u XOR v) = rs_step x a n u XOR rs_step x b n v"
    using Suc.prems by (simp add: rs_step_eq dbl_xor bit_xor_iff xor.assoc xor.left_commute)
  then show ?case
    using Suc.IH [of "rs_step x a n u" "rs_step x b n v"] Suc.prems assms
    by (simp add: is_byte_rs_step)
qed

lemma take_bit_Suc_xor:
  "take_bit (Suc k) (x :: 32 word) = take_bit k x XOR (if bit x k then 2 ^ k else 0)"
proof (rule bit_eqI)
  fix n
  show "bit (take_bit (Suc k) x) n = bit (take_bit k x XOR (if bit x k then 2 ^ k else 0)) n"
    by (cases "bit x k") (auto simp add: bit_simps less_Suc_eq dest: bit_imp_le_length)
qed

lemma is_byte_take_bit: "k \<le> 8 \<Longrightarrow> is_byte (take_bit k z)"
  by (simp add: is_byte_def min_def)

lemma is_byte_pow: "k < 8 \<Longrightarrow> is_byte (2 ^ k)"
  by (simp add: is_byte_bit bit_simps)

lemma byte_span:
  assumes z: "P 0"
    and x: "\<And>a b. is_byte a \<Longrightarrow> is_byte b \<Longrightarrow> P a \<Longrightarrow> P b \<Longrightarrow> P (a XOR b)"
    and p: "\<And>k. k < 8 \<Longrightarrow> P (2 ^ k)"
    and b: "is_byte w"
  shows "P w"
proof -
  have "k \<le> 8 \<Longrightarrow> P (take_bit k w)" for k
  proof (induction k)
    case 0
    then show ?case using z by simp
  next
    case (Suc k)
    then have k: "k < 8" and ih: "P (take_bit k w)" by simp_all
    have "P (if bit w k then 2 ^ k else 0)" using z p [OF k] by simp
    moreover have "is_byte (if bit w k then 2 ^ k else 0)"
      using k by (simp add: is_byte_pow is_byte_0)
    ultimately show ?case
      using x [OF _ _ ih, of "if bit w k then 2 ^ k else 0"] k
      by (simp only: take_bit_Suc_xor) (simp add: is_byte_take_bit)
  qed
  from this [of 8] b show ?thesis by (simp add: is_byte_def)
qed

lemma rs_step_pow: "m < 8 \<Longrightarrow> rs_step x (2 ^ m) i z = dbl z XOR (if i = m then x else 0)"
  by (simp add: rs_step_eq bit_simps)

lemma rs_loop_pow_gen:
  "m < 8 \<Longrightarrow> rs_loop k x (2 ^ m) z =
     (if m < k then (dbl ^^ m) ((dbl ^^ (k - m)) z XOR x) else (dbl ^^ k) z)"
proof (induction k arbitrary: z)
  case 0
  then show ?case by simp
next
  case (Suc k)
  consider "m < k" | "m = k" | "k < m" by linarith
  then show ?case
  proof cases
    case 1
    then have "Suc k - m = Suc (k - m)" by simp
    with 1 Suc show ?thesis by (simp add: rs_step_pow funpow_swap1)
  next
    case 2
    with Suc show ?thesis by (simp add: rs_step_pow)
  next
    case 3
    with Suc show ?thesis by (simp add: rs_step_pow funpow_swap1)
  qed
qed

lemma dbl_funpow_0: "(dbl ^^ k) 0 = 0"
  by (induction k) (simp_all add: dbl_0)

lemma rs_loop_pow: "m < 8 \<Longrightarrow> rs_loop 8 x (2 ^ m) 0 = (dbl ^^ m) x"
  by (simp add: rs_loop_pow_gen dbl_funpow_0)

lemma dbl_pow: "k < 7 \<Longrightarrow> dbl (2 ^ k) = 2 ^ Suc k"
proof -
  assume "k < 7"
  then have "k \<in> {0, 1, 2, 3, 4, 5, 6}" by auto
  then show ?thesis by (auto simp add: dbl_def)
qed

lemma dbl_funpow_1: "k < 8 \<Longrightarrow> (dbl ^^ k) 1 = 2 ^ k"
  by (induction k) (simp_all add: dbl_pow)

lemma rs_loop_pow_comm:
  assumes "n < 8" "m < 8"
  shows "rs_loop 8 (2 ^ n) (2 ^ m) 0 = rs_loop 8 (2 ^ m) (2 ^ n) 0"
proof -
  have "rs_loop 8 (2 ^ n) (2 ^ m) 0 = (dbl ^^ m) ((dbl ^^ n) 1)"
    using assms by (simp add: rs_loop_pow dbl_funpow_1)
  also have "\<dots> = (dbl ^^ n) ((dbl ^^ m) 1)"
    by (simp only: funpow_add [symmetric, unfolded o_def, THEN fun_cong] add.commute [of m n])
  also have "\<dots> = rs_loop 8 (2 ^ m) (2 ^ n) 0"
    using assms by (simp add: rs_loop_pow dbl_funpow_1)
  finally show ?thesis .
qed

lemma rs_loop_comm:
  assumes "is_byte x" "is_byte y"
  shows "rs_loop 8 x y 0 = rs_loop 8 y x 0"
proof -
  have pow: "rs_loop 8 (2 ^ n) w 0 = rs_loop 8 w (2 ^ n) 0" if "n < 8" "is_byte w" for n w
  proof (rule byte_span [where P = "\<lambda>w. rs_loop 8 (2 ^ n) w 0 = rs_loop 8 w (2 ^ n) 0", OF _ _ _ that(2)])
    show "rs_loop 8 (2 ^ n) 0 0 = rs_loop 8 0 (2 ^ n) 0"
      by (simp only: rs_loop_x0 rs_loop_y0)
  next
    fix a b :: "32 word"
    assume "is_byte a" "is_byte b"
      and "rs_loop 8 (2 ^ n) a 0 = rs_loop 8 a (2 ^ n) 0"
      and "rs_loop 8 (2 ^ n) b 0 = rs_loop 8 b (2 ^ n) 0"
    then show "rs_loop 8 (2 ^ n) (a XOR b) 0 = rs_loop 8 (a XOR b) (2 ^ n) 0"
      using rs_loop_xor_y [OF is_byte_pow [OF that(1)] is_byte_0 is_byte_0, of 8 a b]
        rs_loop_xor_x [OF \<open>is_byte a\<close> \<open>is_byte b\<close> is_byte_0 is_byte_0, of 8 "2 ^ n"]
      by simp
  next
    fix k :: nat assume "k < 8"
    with that(1) show "rs_loop 8 (2 ^ n) (2 ^ k) 0 = rs_loop 8 (2 ^ k) (2 ^ n) 0"
      by (rule rs_loop_pow_comm)
  qed
  show ?thesis
  proof (rule byte_span [where P = "\<lambda>x. rs_loop 8 x y 0 = rs_loop 8 y x 0", OF _ _ _ assms(1)])
    show "rs_loop 8 0 y 0 = rs_loop 8 y 0 0"
      by (simp only: rs_loop_x0 rs_loop_y0)
  next
    fix a b :: "32 word"
    assume "is_byte a" "is_byte b"
      and "rs_loop 8 a y 0 = rs_loop 8 y a 0"
      and "rs_loop 8 b y 0 = rs_loop 8 y b 0"
    then show "rs_loop 8 (a XOR b) y 0 = rs_loop 8 y (a XOR b) 0"
      using rs_loop_xor_y [OF assms(2) is_byte_0 is_byte_0, of 8 a b]
        rs_loop_xor_x [OF \<open>is_byte a\<close> \<open>is_byte b\<close> is_byte_0 is_byte_0, of 8 y]
      by simp
  next
    fix k :: nat assume "k < 8"
    then show "rs_loop 8 (2 ^ k) y 0 = rs_loop 8 y (2 ^ k) 0"
      using pow [OF _ assms(2)] by simp
  qed
qed

text \<open>
  Claim C6.  For all \<open>x\<close>, \<open>y\<close> in \<open>[0, 255]\<close>: \<open>multiply(x, 1) = x\<close>, \<open>multiply(x, 0) = 0\<close>
  and \<open>multiply(x, y) = multiply(y, x)\<close>, although the loop reads the bits of \<open>y\<close> and
  adds copies of \<open>x\<close>.
\<close>

theorem reedSolomonMultiply_field_laws:
  assumes "0 \<le> x \<and> x \<le> 255" and "0 \<le> y \<and> y \<le> 255"
  shows "reedSolomonMultiply x 1 = Inr x
       \<and> reedSolomonMultiply x 0 = Inr 0
       \<and> (\<exists>r. reedSolomonMultiply x y = Inr r \<and> reedSolomonMultiply y x = Inr r)"
proof -
  have bx: "is_byte_int x" and by': "is_byte_int y" and b0: "is_byte_int 0" and b1: "is_byte_int 1"
    using assms by (simp_all add: is_byte_int_def)
  have "reedSolomonMultiply x 1 = Inr x"
    using reedSolomonMultiply_bytes(1) [OF bx b1] uint_byte_word [OF bx]
    by (simp add: rs_loop_y1)
  moreover have "reedSolomonMultiply x 0 = Inr 0"
    using reedSolomonMultiply_bytes(1) [OF bx b0]
    by (simp add: rs_loop_y0)
  moreover have "\<exists>r. reedSolomonMultiply x y = Inr r \<and> reedSolomonMultiply y x = Inr r"
    using reedSolomonMultiply_bytes(1) [OF bx by'] reedSolomonMultiply_bytes(1) [OF by' bx]
      rs_loop_comm [OF is_byte_word_of_int [OF bx] is_byte_word_of_int [OF by']]
    by simp
  ultimately show ?thesis by simp
qed

theorem reedSolomonMultiply_field_laws_witness:
  "reedSolomonMultiply 87 1 = Inr 87 \<and> reedSolomonMultiply 87 0 = Inr 0
     \<and> (\<exists>r. reedSolomonMultiply 87 19 = Inr r \<and> reedSolomonMultiply 19 87 = Inr r)"
  using reedSolomonMultiply_field_laws [of 87 19] by simp

text \<open>
  Claim C7.  For all \<open>x\<close>, \<open>y\<close> in \<open>[0, 255]\<close>, \<open>reedSolomonMultiply(x, y)\<close> returns a value
  in \<open>[0, 255]\<close>: every step of the loop maps an accumulator below 256 to an accumulator
  below 256, so the test \<open>z >>> 8 != 0\<close> after the loop never throws.
\<close>

theorem reedSolomonMultiply_in_range:
  assumes "0 \<le> x \<and> x \<le> 255" and "0 \<le> y \<and> y \<le> 255"
  shows "(\<exists>r. reedSolomonMultiply x y = Inr r \<and> 0 \<le> r \<and> r \<le> 255)
       \<and> (\<forall>i z. z < 256 \<longrightarrow> rs_step (word_of_int x) (word_of_int y) i z < 256)
       \<and> reedSolomonMultiply x y \<noteq> Inl AssertionError"
proof -
  have bx: "is_byte_int x" and by': "is_byte_int y"
    using assms by (simp_all add: is_byte_int_def)
  from reedSolomonMultiply_closed [OF bx by']
  obtain r where r: "reedSolomonMultiply x y = Inr r" "is_byte_int r" by blast
  have "\<forall>i z. z < 256 \<longrightarrow> rs_step (word_of_int x) (word_of_int y) i z < 256"
    using is_byte_rs_step [OF is_byte_word_of_int [OF bx]]
    by (simp add: is_byte_less)
  with r show ?thesis by (simp add: is_byte_int_def)
qed

theorem reedSolomonMultiply_in_range_witness:
  "(\<exists>r. reedSolomonMultiply 200 131 = Inr r \<and> 0 \<le> r \<and> r \<le> 255)
     \<and> rs_step (word_of_int 200) (word_of_int 131) 7 255 < 256"
proof -
  have "(255 :: 32 word) < 256" by simp
  with reedSolomonMultiply_in_range [of 200 131] show ?thesis by simp
qed

section \<open>Properties of getNumRawDataModules and reedSolomonComputeDivisor\<close>

lemma raw_modules_all:
  "\<forall>ver\<in>set [1..40]. getNumRawDataModules ver = Inr (rawModulesFormula ver)
      \<and> 208 \<le> rawModulesFormula ver \<and> rawModulesFormula ver \<le> 29648"
  by code_simp

text \<open>
  Claim C8.  For every version in \<open>[1, 40]\<close>, \<open>getNumRawDataModules\<close> returns the closed
  form of the specification, and that value lies in \<open>[208, 29648]\<close>: the assertion is
  never thrown for a version in range.
\<close>

theorem getNumRawDataModules_closed_form:
  assumes "1 \<le> ver" "ver \<le> 40"
  shows "getNumRawDataModules ver = Inr (rawModulesFormula ver)
       \<and> 208 \<le> rawModulesFormula ver \<and> rawModulesFormula ver \<le> 29648"
proof -
  from assms have "ver \<in> set [1..40]" by simp
  with raw_modules_all show ?thesis by blast
qed

theorem getNumRawDataModules_closed_form_witness:
  "getNumRawDataModules 7 = Inr (rawModulesFormula 7)
     \<and> 208 \<le> rawModulesFormula 7 \<and> rawModulesFormula 7 \<le> 29648"
  using getNumRawDataModules_closed_form [of 7] by simp

lemma is_byte_int_xor32:
  assumes "is_byte_int a" "is_byte_int b" shows "is_byte_int (xor32 a b)"
  unfolding xor32_def
  by (intro sint_is_byte(2) is_byte_xor is_byte_word_of_int assms)

lemma bytes_update: "bytes xs \<Longrightarrow> is_byte_int v \<Longrightarrow> bytes (xs[i := v])"
  unfolding bytes_def by (metis insert_iff set_update_subset_insert subsetD)

lemma bytes_nth: "bytes xs \<Longrightarrow> i < length xs \<Longrightarrow> is_byte_int (xs ! i)"
  by (simp add: bytes_def)

lemma divisor_inner_ok:
  "is_byte_int root \<Longrightarrow> bytes result \<Longrightarrow>
     \<exists>r. divisor_inner root j result = Inr r \<and> length r = length result \<and> bytes r"
proof (induction root j result rule: divisor_inner.induct)
  case (1 root j result)
  show ?case
  proof (cases "j < length result")
    case False
    then show ?thesis using "1.prems" by (subst divisor_inner.simps) simp
  next
    case True
    from reedSolomonMultiply_closed [OF bytes_nth [OF "1.prems"(2) True] "1.prems"(1)]
    obtain m where m: "reedSolomonMultiply (result ! j) root = Inr m" and bm: "is_byte_int m"
      by blast
    let ?r1 = "result[j := m]"
    let ?r2 = "if j + 1 < length ?r1 then ?r1[j := xor32 (?r1 ! j) (?r1 ! (j + 1))] else ?r1"
    have b1: "bytes ?r1" using "1.prems"(2) bm by (rule bytes_update)
    have b2: "bytes ?r2"
    proof (cases "j + 1 < length ?r1")
      case False
      then show ?thesis using b1 by simp
    next
      case lt: True
      with True have "is_byte_int (?r1 ! j)" "is_byte_int (?r1 ! (j + 1))"
        using b1 by (simp_all only: bytes_nth length_list_update)
      then have "bytes (?r1[j := xor32 (?r1 ! j) (?r1 ! (j + 1))])"
        by (intro bytes_update b1 is_byte_int_xor32)
      with lt show ?thesis by simp
    qed
    have l2: "length ?r2 = length result" by simp
    from "1.IH" [OF True m "1.prems"(1)] b2
    obtain r where "divisor_inner root (j + 1) ?r2 = Inr r" "length r = length ?r2" "bytes r"
      by (auto simp add: Let_def)
    then show ?thesis using True m l2
      by (subst divisor_inner.simps) (simp add: Let_def)
  qed
qed


lemma divisor_outer_ok:
  "is_byte_int root \<Longrightarrow> bytes result \<Longrightarrow>
     \<exists>r. divisor_outer degree i root result = Inr r \<and> length r = length result \<and> bytes r"
proof (induction degree i root result rule: divisor_outer.induct)
  case (1 degree i root result)
  show ?case
  proof (cases "i < degree")
    case False
    then show ?thesis using "1.prems" by (subst divisor_outer.simps) simp
  next
    case True
    from divisor_inner_ok [OF "1.prems", of 0]
    obtain r1 where r1: "divisor_inner root 0 result = Inr r1"
      and l1: "length r1 = length result" and b1: "bytes r1" by blast
    have "is_byte_int 2" by (simp add: is_byte_int_def)
    from reedSolomonMultiply_closed [OF "1.prems"(1) this]
    obtain root' where m: "reedSolomonMultiply root 2 = Inr root'" and br: "is_byte_int root'"
      by blast
    from "1.IH" [OF True r1 m br b1]
    obtain r where "divisor_outer degree (i + 1) root' r1 = Inr r" "length r = length r1" "bytes r"
      by blast
    then show ?thesis using True r1 m l1
      by (subst divisor_outer.simps) simp
  qed
qed

text \<open>
  Claim C4.  For every degree \<open>d\<close> in \<open>[1, 255]\<close>, \<open>reedSolomonComputeDivisor(d)\<close> returns
  exactly \<open>d\<close> coefficients; for every other \<open>d\<close> it throws "Degree out of range".
\<close>

theorem reedSolomonComputeDivisor_length:
  "(1 \<le> d \<and> d \<le> 255 \<longrightarrow>
      (\<exists>r. reedSolomonComputeDivisor d = Inr r \<and> int (length r) = d))
   \<and> (d < 1 \<or> d > 255 \<longrightarrow> reedSolomonComputeDivisor d = Inl DegreeOutOfRange)"
proof (intro conjI impI)
  assume d: "1 \<le> d \<and> d \<le> 255"
  have "is_byte_int 1" by (simp add: is_byte_int_def)
  moreover have "bytes (replicate (nat (d - 1)) 0 @ [1])"
    by (auto simp add: bytes_def is_byte_int_def)
  ultimately obtain r where "divisor_outer d 0 1 (replicate (nat (d - 1)) 0 @ [1]) = Inr r"
    and "length r = length (replicate (nat (d - 1)) 0 @ [1::int])"
    using divisor_outer_ok by blast
  with d show "\<exists>r. reedSolomonComputeDivisor d = Inr r \<and> int (length r) = d"
    by (simp add: reedSolomonComputeDivisor_def)
next
  assume "d < 1 \<or> d > 255"
  then show "reedSolomonComputeDivisor d = Inl DegreeOutOfRange"
    by (simp add: reedSolomonComputeDivisor_def)
qed

theorem reedSolomonComputeDivisor_length_witness:
  "(\<exists>r. reedSolomonComputeDivisor 7 = Inr r \<and> int (length r) = 7)
     \<and> reedSolomonComputeDivisor 0 = Inl DegreeOutOfRange
     \<and> reedSolomonComputeDivisor 256 = Inl DegreeOutOfRange"
  using reedSolomonComputeDivisor_length [of 7] reedSolomonComputeDivisor_length [of 0]
    reedSolomonComputeDivisor_length [of 256]
  by simp

lemma reedSolomonComputeDivisor_ok:
  assumes "1 \<le> d" "d \<le> 255"
  shows "\<exists>r. reedSolomonComputeDivisor d = Inr r \<and> int (length r) = d \<and> bytes r"
proof -
  have "is_byte_int 1" by (simp add: is_byte_int_def)
  moreover have "bytes (replicate (nat (d - 1)) 0 @ [1])"
    by (auto simp add: bytes_def is_byte_int_def)
  ultimately obtain r where "divisor_outer d 0 1 (replicate (nat (d - 1)) 0 @ [1]) = Inr r"
    and "length r = length (replicate (nat (d - 1)) 0 @ [1::int])" and "bytes r"
    using divisor_outer_ok by blast
  with assms show ?thesis
    by (simp add: reedSolomonComputeDivisor_def)
qed

section \<open>Properties of reedSolomonComputeRemainder\<close>

lemma bytes_Nil: "bytes []" by (simp add: bytes_def)

lemma bytes_append: "bytes (xs @ ys) \<longleftrightarrow> bytes xs \<and> bytes ys"
  by (auto simp add: bytes_def)

lemma bytes_Cons: "bytes (x # xs) \<longleftrightarrow> is_byte_int x \<and> bytes xs"
  by (simp add: bytes_def)

lemma is_byte_int_0: "is_byte_int 0" by (simp add: is_byte_int_def)

lemma xor_assign_in_range:
  assumes "i < length result" "bytes result" "is_byte_int v"
  shows "length (xor_assign result i v) = length result" and "bytes (xor_assign result i v)"
proof -
  show "length (xor_assign result i v) = length result"
    using assms(1) by (simp add: xor_assign_def)
  have "is_byte_int (xor32 (result ! i) v)"
    by (intro is_byte_int_xor32 bytes_nth assms)
  then show "bytes (xor_assign result i v)"
    using assms(1) by (simp add: xor_assign_def bytes_update [OF assms(2)])
qed

lemma remainder_forEach_ok:
  "bytes divisor \<Longrightarrow> is_byte_int factor \<Longrightarrow> bytes result \<Longrightarrow> length divisor \<le> length result \<Longrightarrow>
     \<exists>r. remainder_forEach divisor factor i result = Inr r \<and> length r = length result \<and> bytes r"
proof (induction divisor factor i result rule: remainder_forEach.induct)
  case (1 divisor factor i result)
  show ?case
  proof (cases "i < length divisor")
    case False
    then show ?thesis using "1.prems" by (subst remainder_forEach.simps) simp
  next
    case True
    from reedSolomonMultiply_closed [OF bytes_nth [OF "1.prems"(1) True] "1.prems"(2)]
    obtain m where m: "reedSolomonMultiply (divisor ! i) factor = Inr m" and bm: "is_byte_int m"
      by blast
    have ir: "i < length result" using True "1.prems"(4) by simp
    note xa = xor_assign_in_range [OF ir "1.prems"(3) bm]
    from "1.IH" [OF True m "1.prems"(1,2) xa(2)] "1.prems"(4) xa(1)
    obtain r where "remainder_forEach divisor factor (i + 1) (xor_assign result i m) = Inr r"
      "length r = length (xor_assign result i m)" "bytes r"
      by auto
    then show ?thesis using True m xa(1)
      by (subst remainder_forEach.simps) simp
  qed
qed

lemma remainder_loop_ok:
  assumes "bytes divisor" "divisor \<noteq> []"
  shows "bytes data \<Longrightarrow> bytes result \<Longrightarrow> length result = length divisor \<Longrightarrow>
     \<exists>r. remainder_loop divisor data result = Inr r \<and> length r = length divisor \<and> bytes r"
proof (induction data arbitrary: result)
  case Nil
  then show ?case by simp
next
  case (Cons b data)
  from Cons.prems(3) assms(2) obtain r rs where res: "result = r # rs"
    by (cases result) auto
  have br: "is_byte_int r" and brs: "bytes rs"
    using Cons.prems(2) by (simp_all add: res bytes_Cons)
  have bb: "is_byte_int b" and bd: "bytes data"
    using Cons.prems(1) by (simp_all add: bytes_Cons)
  have bf: "is_byte_int (xor32 b r)" using bb br by (rule is_byte_int_xor32)
  have b1: "bytes (rs @ [0])"
    using brs by (simp add: bytes_append bytes_Cons bytes_Nil is_byte_int_0)
  have l1: "length (rs @ [0]) = length divisor" using Cons.prems(3) res by simp
  from remainder_forEach_ok [OF assms(1) bf b1, of 0] l1
  obtain r1 where r1: "remainder_forEach divisor (xor32 b r) 0 (rs @ [0]) = Inr r1"
    and lr1: "length r1 = length divisor" and br1: "bytes r1" by auto
  from Cons.IH [OF bd br1 lr1] show ?case
    using r1 by (simp add: res shift_def)
qed

lemma reedSolomonComputeRemainder_ok:
  assumes "bytes data" "bytes divisor" "divisor \<noteq> []"
  shows "\<exists>r. reedSolomonComputeRemainder data divisor = Inr r \<and> length r = length divisor \<and> bytes r"
proof -
  have "bytes (map (\<lambda>_. 0) divisor)" by (simp add: bytes_def is_byte_int_def)
  from remainder_loop_ok [OF assms(2,3,1) this] show ?thesis
    by (simp add: reedSolomonComputeRemainder_def)
qed

text \<open>
  Claim C5, amended.  For every sequence of bytes \<open>data\<close> and every sequence of bytes
  \<open>divisor\<close> that is not empty (or with \<open>data\<close> empty),
  \<open>reedSolomonComputeRemainder(data, divisor)\<close> returns a sequence as long as \<open>divisor\<close>.
\<close>

theorem reedSolomonComputeRemainder_length:
  assumes "bytes data" and "bytes divisor" and "divisor \<noteq> [] \<or> data = []"
  shows "\<exists>r. reedSolomonComputeRemainder data divisor = Inr r \<and> length r = length divisor"
proof (cases "divisor = []")
  case False
  with reedSolomonComputeRemainder_ok [OF assms(1,2)] show ?thesis by blast
next
  case True
  with assms(3) show ?thesis by (simp add: reedSolomonComputeRemainder_def)
qed

theorem reedSolomonComputeRemainder_length_witness:
  "(\<exists>r. reedSolomonComputeRemainder [32, 91, 11] [127, 122, 154] = Inr r \<and> length r = 3)
   \<and> (\<exists>r. reedSolomonComputeRemainder [] [] = Inr r \<and> length r = 0)"
  using reedSolomonComputeRemainder_length [of "[32, 91, 11]" "[127, 122, 154]"]
    reedSolomonComputeRemainder_length [of "[]" "[]"]
  by (simp add: bytes_def is_byte_int_def numeral_3_eq_3)

text \<open>
  With an empty divisor and one data byte, \<open>shift\<close> finds nothing to remove and \<open>push\<close>
  still appends: the result has one element, the divisor none.
\<close>

theorem reedSolomonComputeRemainder_empty_divisor:
  "reedSolomonComputeRemainder [5] [] = Inr [0] \<and> length [0 :: int] \<noteq> length ([] :: int list)"
  by (simp add: reedSolomonComputeRemainder_def shift_def remainder_forEach.simps)

section \<open>The splitting loop\<close>

lemma slice_array_in_range:
  assumes "0 \<le> k" "k \<le> hi" "hi \<le> int (length xs)"
  shows "length (slice_array xs k hi) = nat (hi - k)" and "set (slice_array xs k hi) \<subseteq> set xs"
proof -
  have eq: "slice_array xs k hi = take (nat (hi - k)) (drop (nat k) xs)"
    using assms by (simp add: slice_array_def Let_def min_def)
  show "length (slice_array xs k hi) = nat (hi - k)"
    using assms by (simp add: eq)
  show "set (slice_array xs k hi) \<subseteq> set xs"
    unfolding eq by (meson set_take_subset set_drop_subset subset_trans)
qed

lemma bytes_subset: "set ys \<subseteq> set xs \<Longrightarrow> bytes xs \<Longrightarrow> bytes ys"
  by (auto simp add: bytes_def)

lemma split_blocks_ok:
  assumes bd: "bytes data" and br: "bytes rsDiv" and ne: "rsDiv \<noteq> []"
    and le: "int (length rsDiv) = blockEccLen"
    and d: "0 \<le> sLen - blockEccLen" and ns: "nShort \<le> numBlocks"
  shows "0 \<le> i \<Longrightarrow> i \<le> numBlocks \<Longrightarrow> 0 \<le> k \<Longrightarrow>
     k + (numBlocks - i) * (sLen - blockEccLen) + (numBlocks - max i nShort) \<le> int (length data) \<Longrightarrow>
     \<exists>new. split_blocks data rsDiv numBlocks blockEccLen nShort sLen i k blocks = Inr (blocks @ new)
        \<and> int (length new) = numBlocks - i
        \<and> (\<forall>b\<in>set new. int (length b) = sLen + 1)
        \<and> (\<forall>j<length new. i + int j < nShort \<longrightarrow> new ! j ! nat (sLen - blockEccLen) = 0)"
proof (induction "nat (numBlocks - i)" arbitrary: i k blocks)
  case 0
  then have "\<not> i < numBlocks" by simp
  then have "split_blocks data rsDiv numBlocks blockEccLen nShort sLen i k blocks = Inr (blocks @ [])"
    by (subst split_blocks.simps) simp
  moreover have "int (length ([] :: int list list)) = numBlocks - i" using 0 by simp
  ultimately show ?case by (intro exI [of _ "[]"]) simp
next
  case (Suc n)
  let ?d = "sLen - blockEccLen"
  let ?delta = "if i < nShort then 0 else 1 :: int"
  let ?hi = "k + sLen - blockEccLen + ?delta"
  let ?dat = "slice_array data k ?hi"
  from Suc.hyps(2) have lt: "i < numBlocks" by simp
  have rest: "0 \<le> (numBlocks - i - 1) * ?d" using lt d by simp
  have split: "(numBlocks - i) * ?d = ?d + (numBlocks - i - 1) * ?d"
    by (simp add: algebra_simps)
  have delta: "?delta + (numBlocks - max (i + 1) nShort) = numBlocks - max i nShort"
    by (simp add: max_def)
  have delta_le: "?delta \<le> numBlocks - max i nShort"
    using lt ns by (simp add: max_def)
  have hi_le: "?hi \<le> int (length data)"
    using Suc.prems(4) rest split delta_le by linarith
  have k_le: "k \<le> ?hi" using d by simp
  note sl = slice_array_in_range [OF Suc.prems(3) k_le hi_le]
  have ldat: "int (length ?dat) = ?d + ?delta" using sl(1) d by simp
  have bdat: "bytes ?dat" using sl(2) bd by (rule bytes_subset)
  from reedSolomonComputeRemainder_ok [OF bdat br ne]
  obtain e where e: "reedSolomonComputeRemainder ?dat rsDiv = Inr e"
    and le': "length e = length rsDiv" by blast
  let ?block = "(if i < nShort then ?dat @ [0] else ?dat) @ e"
  have lblock: "int (length ?block) = sLen + 1"
    using ldat le' le by (cases "i < nShort") simp_all
  have pad: "i < nShort \<Longrightarrow> ?block ! nat ?d = 0"
  proof -
    assume "i < nShort"
    moreover from this ldat have "length ?dat = nat ?d" by simp
    ultimately show ?thesis by (simp add: nth_append)
  qed
  have inv: "k + int (length ?dat) + (numBlocks - (i + 1)) * ?d + (numBlocks - max (i + 1) nShort)
       \<le> int (length data)"
    using Suc.prems(4) split delta ldat by (simp add: algebra_simps)
  have "n = nat (numBlocks - (i + 1))" using Suc.hyps(2) by simp
  from Suc.hyps(1) [OF this, of "k + int (length ?dat)" "blocks @ [?block]"] inv lt Suc.prems(1,3)
  obtain new where new: "split_blocks data rsDiv numBlocks blockEccLen nShort sLen (i + 1)
        (k + int (length ?dat)) (blocks @ [?block]) = Inr ((blocks @ [?block]) @ new)"
    and lnew: "int (length new) = numBlocks - (i + 1)"
    and lens: "\<forall>b\<in>set new. int (length b) = sLen + 1"
    and pads: "\<forall>j<length new. i + 1 + int j < nShort \<longrightarrow> new ! j ! nat ?d = 0"
    by auto
  have run: "split_blocks data rsDiv numBlocks blockEccLen nShort sLen i k blocks
      = Inr (blocks @ (?block # new))"
    using lt e new by (subst split_blocks.simps) (simp add: Let_def)
  have "int (length (?block # new)) = numBlocks - i" using lnew by simp
  moreover have "\<forall>b\<in>set (?block # new). int (length b) = sLen + 1"
    using lens lblock by (simp del: length_append)
  moreover have "\<forall>j<length (?block # new). i + int j < nShort \<longrightarrow> (?block # new) ! j ! nat ?d = 0"
  proof (intro allI impI)
    fix j assume j: "j < length (?block # new)" and s: "i + int j < nShort"
    show "(?block # new) ! j ! nat ?d = 0"
    proof (cases j)
      case 0
      with s pad show ?thesis by simp
    next
      case (Suc j')
      with j s pads show ?thesis by simp
    qed
  qed
  ultimately show ?case using run by blast
qed

section \<open>The interleaving loop\<close>

lemma length_filter_enumerate:
  "length (filter (\<lambda>(j, b). P j) (enumerate n xs)) = length (filter P [n..<n + length xs])"
proof -
  have "length (filter (\<lambda>(j, b). P j) (enumerate n xs))
      = length (map fst (filter (P \<circ> fst) (enumerate n xs)))"
    by (simp add: comp_def case_prod_unfold)
  also have "\<dots> = length (filter P (map fst (enumerate n xs)))"
    by (simp only: filter_map)
  finally show ?thesis by simp
qed

lemma count_from: "length (filter (\<lambda>j. nShort \<le> int j) [0..<n]) = n - nat nShort"
  by (induction n) auto

lemma interleave_row_length:
  "length (interleave_row blockEccLen nShort sLen blocks i)
     = (if int i = sLen - blockEccLen then length blocks - nat nShort else length blocks)"
proof (cases "int i = sLen - blockEccLen")
  case True
  then have "interleave_row blockEccLen nShort sLen blocks i
      = map (\<lambda>(j, block). js_get block i)
          (filter (\<lambda>(j, block). nShort \<le> int j) (enumerate 0 blocks))"
    by (simp add: interleave_row_def)
  with True show ?thesis
    by (simp add: length_filter_enumerate count_from)
next
  case False
  then show ?thesis by (simp add: interleave_row_def)
qed

lemma sum_list_one_off:
  "k < n \<Longrightarrow> sum_list (map (\<lambda>i. if i = k then a else b) [0..<n]) = (n - 1) * b + (a :: nat)"
proof (induction n)
  case 0
  then show ?case by simp
next
  case (Suc n)
  show ?case
  proof (cases "k = n")
    case True
    then have "map (\<lambda>i. if i = k then a else b) [0..<n] = map (\<lambda>i. b) [0..<n]" by simp
    with True show ?thesis by (simp add: sum_list_replicate map_replicate_const)
  next
    case False
    with Suc.prems have "k < n" by simp
    with Suc.IH False show ?thesis by (cases n) simp_all
  qed
qed

lemma interleave_ok:
  assumes ne: "blocks \<noteq> []"
    and len: "\<forall>b\<in>set blocks. int (length b) = sLen + 1"
    and d: "0 \<le> sLen - blockEccLen" and e: "1 \<le> blockEccLen"
    and ns: "0 \<le> nShort" "nShort \<le> int (length blocks)"
    and raw: "rawCodewords = int (length blocks) * sLen + (int (length blocks) - nShort)"
  shows "\<exists>r. interleave blockEccLen nShort sLen rawCodewords blocks = Inr r
            \<and> int (length r) = rawCodewords"
proof -
  from ne obtain block0 rest where b: "blocks = block0 # rest" by (cases blocks) auto
  with len have "int (length block0) = sLen + 1" by simp
  then have l0: "length block0 = nat (sLen + 1)" by linarith
  let ?k = "nat (sLen - blockEccLen)"
  let ?n = "nat (sLen + 1)"
  let ?L = "length blocks"
  let ?result = "concat (map (interleave_row blockEccLen nShort sLen blocks) [0..<length block0])"
  have kn: "?k < ?n" using d e by simp
  have row: "length (interleave_row blockEccLen nShort sLen blocks i)
      = (if i = ?k then ?L - nat nShort else ?L)" for i
    using d by (simp add: interleave_row_length nat_eq_iff)
  have "length ?result = sum_list (map (\<lambda>i. if i = ?k then ?L - nat nShort else ?L) [0..<?n])"
    by (simp add: length_concat comp_def row l0)
  also have "\<dots> = (?n - 1) * ?L + (?L - nat nShort)"
    using kn by (rule sum_list_one_off)
  finally have "int (length ?result) = int ((?n - 1) * ?L + (?L - nat nShort))" by simp
  also have "\<dots> = sLen * int ?L + (int ?L - nShort)"
    using d e ns by (simp add: nat_diff_distrib' of_nat_diff)
  finally have "int (length ?result) = rawCodewords"
    using raw by (simp add: mult.commute)
  then show ?thesis
    by (simp add: interleave_def b Let_def)
qed

lemma interleave_row_defined:
  assumes "\<forall>b\<in>set blocks. i < length b"
  shows "None \<notin> set (interleave_row blockEccLen nShort sLen blocks i)"
proof
  assume "None \<in> set (interleave_row blockEccLen nShort sLen blocks i)"
  then obtain j block where "(j, block) \<in> set (enumerate 0 blocks)" and n: "js_get block i = None"
    by (auto simp add: interleave_row_def)
  then have "block \<in> set blocks" by (auto simp add: in_set_enumerate_eq)
  with assms have "i < length block" by blast
  with n show False by (simp add: js_get_def)
qed

lemma interleave_defined:
  assumes "interleave blockEccLen nShort sLen rawCodewords blocks = Inr r"
    and "\<forall>b\<in>set blocks. int (length b) = sLen + 1"
  shows "None \<notin> set r"
proof -
  from assms(1) obtain block0 rest where b: "blocks = block0 # rest"
    by (cases blocks) (simp_all add: interleave_def)
  with assms(2) have l0: "int (length block0) = sLen + 1" by simp
  from assms(1) b
  have r: "r = concat (map (interleave_row blockEccLen nShort sLen blocks) [0..<length block0])"
    by (simp add: interleave_def Let_def split: if_splits)
  have "None \<notin> set (interleave_row blockEccLen nShort sLen blocks i)" if "i < length block0" for i
  proof (rule interleave_row_defined, rule ballI)
    fix c assume "c \<in> set blocks"
    with assms(2) have "int (length c) = sLen + 1" by blast
    with l0 have "length c = length block0" by linarith
    with that show "i < length c" by simp
  qed
  then show ?thesis unfolding r by auto
qed

section \<open>Blocks and result of addEccAndInterleave\<close>

lemma numShortBlocks_bounds:
  assumes "1 \<le> numBlocks"
  shows "1 \<le> numShortBlocks numBlocks rawCodewords"
    and "numShortBlocks numBlocks rawCodewords \<le> numBlocks"
proof -
  have "0 \<le> rawCodewords mod numBlocks" "rawCodewords mod numBlocks < numBlocks"
    using assms by simp_all
  then show "1 \<le> numShortBlocks numBlocks rawCodewords"
    and "numShortBlocks numBlocks rawCodewords \<le> numBlocks"
    by (simp_all add: numShortBlocks_def)
qed

lemma raw_split:
  "rawCodewords = numBlocks * shortBlockLen numBlocks rawCodewords
      + (numBlocks - numShortBlocks numBlocks rawCodewords)"
  by (simp add: shortBlockLen_def numShortBlocks_def)

lemma getNumDataCodewords_eq:
  assumes "getNumRawDataModules ver = Inr raw"
  shows "getNumDataCodewords lv ver qr =
     Inr (raw div 8 - ECC_CODEWORDS_PER_BLOCK qr (lv (error_correction_level qr)) ver
                        * NUM_ERROR_CORRECTION_BLOCKS qr (lv (error_correction_level qr)) ver)"
  using assms by (simp add: getNumDataCodewords_def Let_def)

lemma ecc_blocks_ok:
  fixes lv :: "string \<Rightarrow> nat" and qr :: QRCode
  defines "nb \<equiv> NUM_ERROR_CORRECTION_BLOCKS qr (lv (error_correction_level qr)) (version qr)"
    and "ecc \<equiv> ECC_CODEWORDS_PER_BLOCK qr (lv (error_correction_level qr)) (version qr)"
  assumes raw: "getNumRawDataModules (version qr) = Inr raw"
    and nb: "1 \<le> nb" and e1: "1 \<le> ecc" and e2: "ecc \<le> 255"
    and es: "ecc \<le> shortBlockLen nb (raw div 8)"
    and len: "getNumDataCodewords lv (version qr) qr = Inr (int (length data))"
    and bd: "bytes data"
  shows "\<exists>blocks. ecc_blocks lv data qr = Inr blocks
      \<and> int (length blocks) = nb
      \<and> (\<forall>b\<in>set blocks. int (length b) = shortBlockLen nb (raw div 8) + 1)
      \<and> (\<forall>j<length blocks. int j < numShortBlocks nb (raw div 8) \<longrightarrow>
            blocks ! j ! nat (shortBlockLen nb (raw div 8) - ecc) = 0)"
proof -
  let ?rawC = "raw div 8"
  let ?nShort = "numShortBlocks nb ?rawC"
  let ?sLen = "shortBlockLen nb ?rawC"
  from len have ld: "int (length data) = ?rawC - ecc * nb"
    by (simp add: getNumDataCodewords_eq [OF raw] nb_def ecc_def)
  from reedSolomonComputeDivisor_ok [OF e1 e2]
  obtain rsDiv where div: "reedSolomonComputeDivisor ecc = Inr rsDiv"
    and ldiv: "int (length rsDiv) = ecc" and bdiv: "bytes rsDiv" by blast
  from ldiv e1 have ne: "rsDiv \<noteq> []" by auto
  note nsb = numShortBlocks_bounds [OF nb, of ?rawC]
  have d: "0 \<le> ?sLen - ecc" using es by simp
  have "nb * (?sLen - ecc) + (nb - ?nShort) = ?rawC - ecc * nb"
    using raw_split [of ?rawC nb] by (simp add: algebra_simps)
  then have inv: "0 + (nb - 0) * (?sLen - ecc) + (nb - max 0 ?nShort) \<le> int (length data)"
    using nsb(1) ld by (simp add: max_def)
  from split_blocks_ok [OF bd bdiv ne ldiv d nsb(2) _ _ _ inv, of "[]"] nb
  obtain new where new: "split_blocks data rsDiv nb ecc ?nShort ?sLen 0 0 [] = Inr new"
    and l: "int (length new) = nb"
    and ls: "\<forall>b\<in>set new. int (length b) = ?sLen + 1"
    and pads: "\<forall>j<length new. int j < ?nShort \<longrightarrow> new ! j ! nat (?sLen - ecc) = 0"
    by auto
  have "ecc_blocks lv data qr = Inr new"
    using raw len div new
    by (simp add: ecc_blocks_def Let_def nb_def [symmetric] ecc_def [symmetric])
  with l ls pads show ?thesis by blast
qed

lemma addEccAndInterleave_eq:
  "addEccAndInterleave lv data qr =
     (case ecc_blocks lv data qr of
        Inl e \<Rightarrow> Inl e
      | Inr blocks \<Rightarrow>
          (case getNumRawDataModules (version qr) of
             Inl e \<Rightarrow> Inl e
           | Inr raw \<Rightarrow>
               interleave (ECC_CODEWORDS_PER_BLOCK qr (lv (error_correction_level qr)) (version qr))
                 (numShortBlocks (NUM_ERROR_CORRECTION_BLOCKS qr (lv (error_correction_level qr)) (version qr)) (raw div 8))
                 (shortBlockLen (NUM_ERROR_CORRECTION_BLOCKS qr (lv (error_correction_level qr)) (version qr)) (raw div 8))
                 (raw div 8) blocks))"
  by (simp add: addEccAndInterleave_def ecc_blocks_def Let_def split: sum.splits)

lemma addEccAndInterleave_ok:
  fixes lv :: "string \<Rightarrow> nat" and qr :: QRCode
  defines "nb \<equiv> NUM_ERROR_CORRECTION_BLOCKS qr (lv (error_correction_level qr)) (version qr)"
    and "ecc \<equiv> ECC_CODEWORDS_PER_BLOCK qr (lv (error_correction_level qr)) (version qr)"
  assumes raw: "getNumRawDataModules (version qr) = Inr raw"
    and nb: "1 \<le> nb" and e1: "1 \<le> ecc" and e2: "ecc \<le> 255"
    and es: "ecc \<le> shortBlockLen nb (raw div 8)"
    and len: "getNumDataCodewords lv (version qr) qr = Inr (int (length data))"
    and bd: "bytes data"
  shows "\<exists>blocks r. ecc_blocks lv data qr = Inr blocks
      \<and> addEccAndInterleave lv data qr = Inr r
      \<and> int (length r) = raw div 8
      \<and> None \<notin> set r
      \<and> int (sum_list (map length blocks)) = raw div 8 + numShortBlocks nb (raw div 8)"
proof -
  let ?rawC = "raw div 8"
  let ?nShort = "numShortBlocks nb ?rawC"
  let ?sLen = "shortBlockLen nb ?rawC"
  from ecc_blocks_ok [OF raw nb [unfolded nb_def] e1 [unfolded ecc_def] e2 [unfolded ecc_def]
      es [unfolded nb_def ecc_def] len bd]
  obtain blocks where b: "ecc_blocks lv data qr = Inr blocks"
    and l: "int (length blocks) = nb"
    and ls: "\<forall>b\<in>set blocks. int (length b) = ?sLen + 1"
    by (auto simp add: nb_def ecc_def)
  note nsb = numShortBlocks_bounds [OF nb, of ?rawC]
  have ne: "blocks \<noteq> []" using l nb by auto
  have d: "0 \<le> ?sLen - ecc" using es by simp
  have r: "?rawC = int (length blocks) * ?sLen + (int (length blocks) - ?nShort)"
    using raw_split [of ?rawC nb] l by simp
  from interleave_ok [OF ne ls d e1 _ _ r] nsb l
  obtain res where res: "interleave ecc ?nShort ?sLen ?rawC blocks = Inr res"
    and lr: "int (length res) = ?rawC" by auto
  have df: "None \<notin> set res" using res ls by (rule interleave_defined)
  have run: "addEccAndInterleave lv data qr = Inr res"
    using b raw res by (simp add: addEccAndInterleave_eq nb_def ecc_def)
  have "\<forall>b\<in>set blocks. length b = nat (?sLen + 1)"
    using ls by auto
  then have "map length blocks = map (\<lambda>_. nat (?sLen + 1)) blocks"
    by (simp only: map_eq_conv)
  then have "sum_list (map length blocks) = length blocks * nat (?sLen + 1)"
    by (simp add: map_replicate_const sum_list_replicate)
  then have "int (sum_list (map length blocks)) = nb * (?sLen + 1)"
    using l d e1 by simp
  also have "\<dots> = ?rawC + ?nShort"
    using raw_split [of ?rawC nb] by (simp add: algebra_simps)
  finally show ?thesis using b run lr df by blast
qed

section \<open>The sample configurations, evaluated\<close>

lemma sample_1L:
  "version sample_qr_1L = 1"
  "getNumRawDataModules 1 = Inr 208"
  "NUM_ERROR_CORRECTION_BLOCKS sample_qr_1L (sample_levels (error_correction_level sample_qr_1L)) 1 = 1"
  "ECC_CODEWORDS_PER_BLOCK sample_qr_1L (sample_levels (error_correction_level sample_qr_1L)) 1 = 7"
  "getNumDataCodewords sample_levels 1 sample_qr_1L = Inr 19"
  "length sample_data_1L = 19"
  "bytes sample_data_1L"
  by (simp_all add: sample_qr_1L_def sample_levels_def sample_ecc_table_def sample_blocks_table_def
      getNumRawDataModules_def getNumDataCodewords_def sample_data_1L_def bytes_def is_byte_int_def)

lemma sample_5Q:
  "version sample_qr_5Q = 5"
  "getNumRawDataModules 5 = Inr 1079"
  "NUM_ERROR_CORRECTION_BLOCKS sample_qr_5Q (sample_levels (error_correction_level sample_qr_5Q)) 5 = 4"
  "ECC_CODEWORDS_PER_BLOCK sample_qr_5Q (sample_levels (error_correction_level sample_qr_5Q)) 5 = 18"
  "getNumDataCodewords sample_levels 5 sample_qr_5Q = Inr 62"
  "length sample_data_5Q = 62"
  "bytes sample_data_5Q"
  by (simp_all add: sample_qr_5Q_def sample_levels_def sample_ecc_table_def sample_blocks_table_def
      getNumRawDataModules_def getNumDataCodewords_def sample_data_5Q_def bytes_def is_byte_int_def)

section \<open>The invalid-argument error\<close>

lemma reedSolomonMultiply_not_invalid: "reedSolomonMultiply x y \<noteq> Inl InvalidArgument"
  by (simp add: reedSolomonMultiply_def Let_def)

lemma divisor_inner_not_invalid: "divisor_inner root j result \<noteq> Inl InvalidArgument"
proof (induction root j result rule: divisor_inner.induct)
  case (1 root j result)
  show ?case
  proof (cases "j < length result")
    case False
    then show ?thesis by (subst divisor_inner.simps) simp
  next
    case True
    show ?thesis
    proof (cases "reedSolomonMultiply (result ! j) root")
      case (Inl e)
      with True reedSolomonMultiply_not_invalid [of "result ! j" root] show ?thesis
        by (subst divisor_inner.simps) auto
    next
      case (Inr m)
      with True "1.IH" [OF True Inr] show ?thesis
        by (subst divisor_inner.simps) (simp add: Let_def)
    qed
  qed
qed

lemma divisor_outer_not_invalid: "divisor_outer degree i root result \<noteq> Inl InvalidArgument"
proof (induction degree i root result rule: divisor_outer.induct)
  case (1 degree i root result)
  show ?case
  proof (cases "i < degree")
    case False
    then show ?thesis by (subst divisor_outer.simps) simp
  next
    case True
    show ?thesis
    proof (cases "divisor_inner root 0 result")
      case (Inl e)
      with True divisor_inner_not_invalid [of root 0 result] show ?thesis
        by (subst divisor_outer.simps) auto
    next
      case r1: (Inr r1)
      show ?thesis
      proof (cases "reedSolomonMultiply root 2")
        case (Inl e)
        with True r1 reedSolomonMultiply_not_invalid [of root 2] show ?thesis
          by (subst divisor_outer.simps) auto
      next
        case (Inr root')
        with True r1 "1.IH" [OF True r1 Inr] show ?thesis
          by (subst divisor_outer.simps) simp
      qed
    qed
  qed
qed

lemma reedSolomonComputeDivisor_not_invalid: "reedSolomonComputeDivisor d \<noteq> Inl InvalidArgument"
  using divisor_outer_not_invalid by (simp add: reedSolomonComputeDivisor_def)

lemma remainder_forEach_not_invalid:
  "remainder_forEach divisor factor i result \<noteq> Inl InvalidArgument"
proof (induction divisor factor i result rule: remainder_forEach.induct)
  case (1 divisor factor i result)
  show ?case
  proof (cases "i < length divisor")
    case False
    then show ?thesis by (subst remainder_forEach.simps) simp
  next
    case True
    show ?thesis
    proof (cases "reedSolomonMultiply (divisor ! i) factor")
      case (Inl e)
      with True reedSolomonMultiply_not_invalid [of "divisor ! i" factor] show ?thesis
        by (subst remainder_forEach.simps) auto
    next
      case (Inr m)
      with True "1.IH" [OF True Inr] show ?thesis
        by (subst remainder_forEach.simps) simp
    qed
  qed
qed

lemma remainder_loop_not_invalid: "remainder_loop divisor data result \<noteq> Inl InvalidArgument"
proof (induction data arbitrary: result)
  case Nil
  then show ?case by simp
next
  case (Cons b data)
  obtain r rs where s: "shift result = (r, rs)" by (cases "shift result")
  show ?case
  proof (cases "remainder_forEach divisor (xor32 b r) 0 (rs @ [0])")
    case (Inl e)
    with s remainder_forEach_not_invalid [of divisor "xor32 b r" 0 "rs @ [0]"] show ?thesis
      by auto
  next
    case (Inr r1)
    with s Cons.IH [of r1] show ?thesis by simp
  qed
qed

lemma reedSolomonComputeRemainder_not_invalid:
  "reedSolomonComputeRemainder data divisor \<noteq> Inl InvalidArgument"
  by (simp add: reedSolomonComputeRemainder_def remainder_loop_not_invalid)

lemma split_blocks_not_invalid:
  "split_blocks data rsDiv numBlocks blockEccLen nShort sLen i k blocks \<noteq> Inl InvalidArgument"
proof (induction data rsDiv numBlocks blockEccLen nShort sLen i k blocks rule: split_blocks.induct)
  case (1 data rsDiv numBlocks blockEccLen nShort sLen i k blocks)
  let ?dat = "slice_array data k (k + sLen - blockEccLen + (if i < nShort then 0 else 1))"
  show ?case
  proof (cases "i < numBlocks")
    case False
    then show ?thesis by (subst split_blocks.simps) simp
  next
    case True
    show ?thesis
    proof (cases "reedSolomonComputeRemainder ?dat rsDiv")
      case (Inl e)
      with True reedSolomonComputeRemainder_not_invalid [of ?dat rsDiv] show ?thesis
        by (subst split_blocks.simps) (auto simp add: Let_def)
    next
      case (Inr ecc)
      with True "1.IH" [OF True refl Inr] show ?thesis
        by (subst split_blocks.simps) (simp add: Let_def)
    qed
  qed
qed

lemma interleave_not_invalid:
  "interleave blockEccLen nShort sLen rawCodewords blocks \<noteq> Inl InvalidArgument"
  by (simp add: interleave_def Let_def split: list.splits)

lemma getNumRawDataModules_in_range:
  assumes "1 \<le> ver" "ver \<le> 40"
  shows "\<exists>raw. getNumRawDataModules ver = Inr raw"
proof -
  from assms have "ver \<in> set [1..40]" by simp
  with raw_modules_all show ?thesis by blast
qed

text \<open>
  Claim C3.  For every version in \<open>[1, 40]\<close>, whatever the tables and the data hold,
  \<open>addEccAndInterleave\<close> throws "Invalid argument" if and only if \<open>data.length\<close> differs
  from \<open>getNumDataCodewords(ver, QrCode)\<close>.  The check comes first: on a mismatched
  length the outcome is this error and no other, and on a matching length no later
  step throws it.
\<close>

theorem addEccAndInterleave_invalid_argument_iff:
  assumes "1 \<le> version QrCode" and "version QrCode \<le> 40"
  shows "\<exists>n. getNumDataCodewords ErrorCorrectionLevels (version QrCode) QrCode = Inr n
     \<and> (addEccAndInterleave ErrorCorrectionLevels data QrCode = Inl InvalidArgument
          \<longleftrightarrow> int (length data) \<noteq> n)"
proof -
  from getNumRawDataModules_in_range [OF assms]
  obtain raw where raw: "getNumRawDataModules (version QrCode) = Inr raw" by blast
  let ?ecl = "ErrorCorrectionLevels (error_correction_level QrCode)"
  let ?nb = "NUM_ERROR_CORRECTION_BLOCKS QrCode ?ecl (version QrCode)"
  let ?ecc = "ECC_CODEWORDS_PER_BLOCK QrCode ?ecl (version QrCode)"
  let ?n = "raw div 8 - ?ecc * ?nb"
  have n: "getNumDataCodewords ErrorCorrectionLevels (version QrCode) QrCode = Inr ?n"
    by (rule getNumDataCodewords_eq [OF raw])
  have "addEccAndInterleave ErrorCorrectionLevels data QrCode = Inl InvalidArgument"
    if "int (length data) \<noteq> ?n"
    using that n by (simp add: addEccAndInterleave_def Let_def)
  moreover have "addEccAndInterleave ErrorCorrectionLevels data QrCode \<noteq> Inl InvalidArgument"
    if "int (length data) = ?n"
  proof (cases "reedSolomonComputeDivisor ?ecc")
    case (Inl e)
    with that n raw reedSolomonComputeDivisor_not_invalid [of ?ecc] show ?thesis
      by (auto simp add: addEccAndInterleave_def Let_def)
  next
    case d: (Inr rsDiv)
    let ?split = "split_blocks data rsDiv ?nb ?ecc (numShortBlocks ?nb (raw div 8))
        (shortBlockLen ?nb (raw div 8)) 0 0 []"
    show ?thesis
    proof (cases ?split)
      case (Inl e)
      with that n raw d split_blocks_not_invalid [of data rsDiv ?nb ?ecc
          "numShortBlocks ?nb (raw div 8)" "shortBlockLen ?nb (raw div 8)" 0 0 "[]"]
      show ?thesis by (auto simp add: addEccAndInterleave_def Let_def)
    next
      case (Inr blocks)
      with that n raw d interleave_not_invalid show ?thesis
        by (simp add: addEccAndInterleave_def Let_def)
    qed
  qed
  ultimately show ?thesis using n by blast
qed

theorem addEccAndInterleave_invalid_argument_iff_witness:
  "getNumDataCodewords sample_levels (version sample_qr_1L) sample_qr_1L = Inr 19
   \<and> addEccAndInterleave sample_levels [1, 2, 3] sample_qr_1L = Inl InvalidArgument
   \<and> addEccAndInterleave sample_levels sample_data_1L sample_qr_1L \<noteq> Inl InvalidArgument"
  using addEccAndInterleave_invalid_argument_iff [of sample_qr_1L sample_levels "[1, 2, 3]"]
    addEccAndInterleave_invalid_argument_iff [of sample_qr_1L sample_levels sample_data_1L]
  by (simp add: sample_1L)

section \<open>Lengths of the result and of the blocks\<close>

text \<open>
  Claim C1.  For every version in \<open>[1, 40]\<close>, every level and every pair of tables with
  \<open>numBlocks \<ge> 1\<close>, \<open>1 \<le> blockEccLen \<le> 255\<close> and
  \<open>blockEccLen \<le> \<lfloor>rawCodewords / numBlocks\<rfloor>\<close>, where
  \<open>rawCodewords = \<lfloor>getNumRawDataModules(ver) / 8\<rfloor>\<close>: applied to a sequence of exactly
  \<open>getNumDataCodewords(ver, QrCode)\<close> bytes, \<open>addEccAndInterleave\<close> returns a sequence of
  exactly \<open>rawCodewords\<close> elements, none of them \<open>undefined\<close>, and the final length
  assertion is not thrown.
\<close>

theorem addEccAndInterleave_length:
  fixes ErrorCorrectionLevels :: "string \<Rightarrow> nat" and QrCode :: QRCode
  defines "numBlocks \<equiv> NUM_ERROR_CORRECTION_BLOCKS QrCode
             (ErrorCorrectionLevels (error_correction_level QrCode)) (version QrCode)"
    and "blockEccLen \<equiv> ECC_CODEWORDS_PER_BLOCK QrCode
             (ErrorCorrectionLevels (error_correction_level QrCode)) (version QrCode)"
  assumes "1 \<le> version QrCode" and "version QrCode \<le> 40"
    and "getNumRawDataModules (version QrCode) = Inr raw"
    and "1 \<le> numBlocks" and "1 \<le> blockEccLen" and "blockEccLen \<le> 255"
    and "blockEccLen \<le> (raw div 8) div numBlocks"
    and "getNumDataCodewords ErrorCorrectionLevels (version QrCode) QrCode = Inr (int (length data))"
    and "bytes data"
  shows "\<exists>result. addEccAndInterleave ErrorCorrectionLevels data QrCode = Inr result
           \<and> int (length result) = raw div 8
           \<and> None \<notin> set result
           \<and> addEccAndInterleave ErrorCorrectionLevels data QrCode \<noteq> Inl AssertionError"
proof -
  have "blockEccLen \<le> shortBlockLen numBlocks (raw div 8)"
    using assms(9) by (simp add: shortBlockLen_def)
  from addEccAndInterleave_ok [OF assms(5) assms(6) [unfolded numBlocks_def]
      assms(7,8) [unfolded blockEccLen_def] this [unfolded numBlocks_def blockEccLen_def]
      assms(10,11)]
  show ?thesis by auto
qed

theorem addEccAndInterleave_length_witness:
  "\<exists>result. addEccAndInterleave sample_levels sample_data_5Q sample_qr_5Q = Inr result
      \<and> int (length result) = 134"
  using addEccAndInterleave_length [where QrCode = sample_qr_5Q
      and ErrorCorrectionLevels = sample_levels and data = sample_data_5Q and raw = 1079]
  by (auto simp add: sample_5Q)

text \<open>
  Claim C2, amended.  Under the same conditions, the lengths of the blocks built by the
  splitting loop (data bytes, the zero pad byte of each short block, error-correction
  bytes) add up to \<open>rawCodewords + numShortBlocks\<close>: one more than \<open>rawCodewords\<close> for
  every pad byte, hence always more than \<open>rawCodewords\<close>.
\<close>

theorem ecc_blocks_total_length:
  fixes ErrorCorrectionLevels :: "string \<Rightarrow> nat" and QrCode :: QRCode
  defines "numBlocks \<equiv> NUM_ERROR_CORRECTION_BLOCKS QrCode
             (ErrorCorrectionLevels (error_correction_level QrCode)) (version QrCode)"
    and "blockEccLen \<equiv> ECC_CODEWORDS_PER_BLOCK QrCode
             (ErrorCorrectionLevels (error_correction_level QrCode)) (version QrCode)"
  assumes "1 \<le> version QrCode" and "version QrCode \<le> 40"
    and "getNumRawDataModules (version QrCode) = Inr raw"
    and "1 \<le> numBlocks" and "1 \<le> blockEccLen" and "blockEccLen \<le> 255"
    and "blockEccLen \<le> (raw div 8) div numBlocks"
    and "getNumDataCodewords ErrorCorrectionLevels (version QrCode) QrCode = Inr (int (length data))"
    and "bytes data"
  shows "\<exists>blocks. ecc_blocks ErrorCorrectionLevels data QrCode = Inr blocks
           \<and> int (sum_list (map length blocks))
                 = raw div 8 + numShortBlocks numBlocks (raw div 8)
           \<and> int (sum_list (map length blocks)) > raw div 8"
proof -
  have "blockEccLen \<le> shortBlockLen numBlocks (raw div 8)"
    using assms(9) by (simp add: shortBlockLen_def)
  from addEccAndInterleave_ok [OF assms(5) assms(6) [unfolded numBlocks_def]
      assms(7,8) [unfolded blockEccLen_def] this [unfolded numBlocks_def blockEccLen_def]
      assms(10,11)]
  obtain blocks where "ecc_blocks ErrorCorrectionLevels data QrCode = Inr blocks"
    and "int (sum_list (map length blocks)) = raw div 8 + numShortBlocks numBlocks (raw div 8)"
    by (auto simp add: numBlocks_def)
  moreover have "1 \<le> numShortBlocks numBlocks (raw div 8)"
    using assms(6) by (rule numShortBlocks_bounds)
  ultimately show ?thesis by auto
qed

theorem ecc_blocks_total_length_witness:
  "\<exists>blocks. ecc_blocks sample_levels sample_data_5Q sample_qr_5Q = Inr blocks
      \<and> int (sum_list (map length blocks)) = 134 + numShortBlocks 4 134"
  using ecc_blocks_total_length [where QrCode = sample_qr_5Q
      and ErrorCorrectionLevels = sample_levels and data = sample_data_5Q and raw = 1079]
  by (auto simp add: sample_5Q)

text \<open>
  Version 1 at level L: a single block of 19 data bytes, one pad byte and 7
  error-correction bytes, 27 in all, against \<open>rawCodewords = 26\<close>.
\<close>

theorem ecc_blocks_total_length_counterexample:
  "map_sum id (sum_list \<circ> map length) (ecc_blocks sample_levels sample_data_1L sample_qr_1L)
      = Inr 27
   \<and> getNumRawDataModules (version sample_qr_1L) = Inr 208 \<and> (208 :: int) div 8 = 26"
proof -
  from addEccAndInterleave_ok [where qr = sample_qr_1L and lv = sample_levels
      and data = sample_data_1L and raw = 208]
  obtain blocks where "ecc_blocks sample_levels sample_data_1L sample_qr_1L = Inr blocks"
    and "int (sum_list (map length blocks)) = 26 + numShortBlocks 1 26"
    by (auto simp add: sample_1L shortBlockLen_def)
  then show ?thesis by (simp add: sample_1L numShortBlocks_def)
qed

section \<open>What a returning call builds\<close>

lemma divisor_inner_length:
  "divisor_inner root j result = Inr r \<Longrightarrow> length r = length result"
proof (induction root j result rule: divisor_inner.induct)
  case (1 root j result)
  show ?case
  proof (cases "j < length result")
    case False
    with "1.prems" show ?thesis by (subst (asm) divisor_inner.simps) simp
  next
    case True
    show ?thesis
    proof (cases "reedSolomonMultiply (result ! j) root")
      case (Inl e)
      with True "1.prems" show ?thesis by (subst (asm) divisor_inner.simps) simp
    next
      case (Inr m)
      let ?r1 = "result[j := m]"
      let ?r2 = "if j + 1 < length ?r1 then ?r1[j := xor32 (?r1 ! j) (?r1 ! (j + 1))] else ?r1"
      from True Inr "1.prems" have "divisor_inner root (j + 1) ?r2 = Inr r"
        by (subst (asm) divisor_inner.simps) (simp add: Let_def)
      from "1.IH" [OF True Inr] this have "length r = length ?r2" by (simp add: Let_def)
      then show ?thesis by simp
    qed
  qed
qed

lemma divisor_outer_length:
  "divisor_outer degree i root result = Inr r \<Longrightarrow> length r = length result"
proof (induction degree i root result rule: divisor_outer.induct)
  case (1 degree i root result)
  show ?case
  proof (cases "i < degree")
    case False
    with "1.prems" show ?thesis by (subst (asm) divisor_outer.simps) simp
  next
    case True
    show ?thesis
    proof (cases "divisor_inner root 0 result")
      case (Inl e)
      with True "1.prems" show ?thesis by (subst (asm) divisor_outer.simps) simp
    next
      case r1: (Inr r1)
      show ?thesis
      proof (cases "reedSolomonMultiply root 2")
        case (Inl e)
        with True r1 "1.prems" show ?thesis by (subst (asm) divisor_outer.simps) simp
      next
        case (Inr root')
        with True r1 "1.prems" have "divisor_outer degree (i + 1) root' r1 = Inr r"
          by (subst (asm) divisor_outer.simps) simp
        from "1.IH" [OF True r1 Inr this] divisor_inner_length [OF r1] show ?thesis by simp
      qed
    qed
  qed
qed

lemma reedSolomonComputeDivisor_returns:
  assumes "reedSolomonComputeDivisor d = Inr r"
  shows "1 \<le> d" and "d \<le> 255" and "int (length r) = d"
proof -
  from assms show d: "1 \<le> d" and "d \<le> 255"
    by (simp_all add: reedSolomonComputeDivisor_def split: if_splits)
  with assms have "divisor_outer d 0 1 (replicate (nat (d - 1)) 0 @ [1]) = Inr r"
    by (simp add: reedSolomonComputeDivisor_def)
  from divisor_outer_length [OF this] d show "int (length r) = d" by simp
qed

lemma remainder_forEach_length:
  "remainder_forEach divisor factor i result = Inr r \<Longrightarrow> length divisor \<le> length result
     \<Longrightarrow> length r = length result"
proof (induction divisor factor i result rule: remainder_forEach.induct)
  case (1 divisor factor i result)
  show ?case
  proof (cases "i < length divisor")
    case False
    with "1.prems" show ?thesis by (subst (asm) remainder_forEach.simps) simp
  next
    case True
    show ?thesis
    proof (cases "reedSolomonMultiply (divisor ! i) factor")
      case (Inl e)
      with True "1.prems" show ?thesis by (subst (asm) remainder_forEach.simps) simp
    next
      case (Inr m)
      have l: "length (xor_assign result i m) = length result"
        using True "1.prems"(2) by (simp add: xor_assign_def)
      from True Inr "1.prems"(1)
      have "remainder_forEach divisor factor (i + 1) (xor_assign result i m) = Inr r"
        by (subst (asm) remainder_forEach.simps) simp
      from "1.IH" [OF True Inr this] l "1.prems"(2) show ?thesis by simp
    qed
  qed
qed

lemma remainder_loop_length:
  assumes "divisor \<noteq> []"
  shows "remainder_loop divisor data result = Inr r \<Longrightarrow> length result = length divisor
     \<Longrightarrow> length r = length divisor"
proof (induction data arbitrary: result)
  case Nil
  then show ?case by simp
next
  case (Cons b data)
  from Cons.prems(2) assms obtain x rest where res: "result = x # rest"
    by (cases result) auto
  show ?case
  proof (cases "remainder_forEach divisor (xor32 b x) 0 (rest @ [0])")
    case (Inl e)
    with Cons.prems(1) res show ?thesis by (simp add: shift_def)
  next
    case (Inr r1)
    with Cons.prems(1) res have run: "remainder_loop divisor data r1 = Inr r"
      by (simp add: shift_def)
    from remainder_forEach_length [OF Inr] Cons.prems(2) res
    have "length r1 = length divisor" by simp
    from Cons.IH [OF run this] show ?thesis .
  qed
qed

lemma reedSolomonComputeRemainder_returns:
  assumes "reedSolomonComputeRemainder data divisor = Inr r" and "divisor \<noteq> []"
  shows "length r = length divisor"
  using remainder_loop_length [OF assms(2), of data "map (\<lambda>_. 0) divisor" r] assms(1)
  by (simp add: reedSolomonComputeRemainder_def)

lemma slice_array_take_drop:
  assumes "0 \<le> k" "k \<le> hi"
  shows "slice_array xs k hi = take (nat (hi - k)) (drop (nat k) xs)"
proof (cases "hi \<le> int (length xs)")
  case True
  with assms show ?thesis by (simp add: slice_array_def Let_def min_def)
next
  case hi: False
  show ?thesis
  proof (cases "k \<le> int (length xs)")
    case True
    with assms hi show ?thesis by (simp add: slice_array_def Let_def min_def)
  next
    case False
    with assms hi show ?thesis by (simp add: slice_array_def Let_def min_def)
  qed
qed

lemma block_start_Suc:
  "block_start blockEccLen nShort sLen (i + 1)
     = block_start blockEccLen nShort sLen i + block_data_len blockEccLen nShort sLen i"
  by (simp add: block_start_def block_data_len_def max_def algebra_simps)

lemma block_start_le:
  assumes "0 \<le> sLen - blockEccLen" "nShort \<le> numBlocks" "0 \<le> j" "j \<le> numBlocks"
  shows "0 \<le> block_start blockEccLen nShort sLen j"
    and "block_start blockEccLen nShort sLen j
           \<le> numBlocks * (sLen - blockEccLen) + (numBlocks - nShort)"
proof -
  let ?d = "sLen - blockEccLen"
  have "0 \<le> j * ?d" using assms(1,3) by simp
  then show "0 \<le> block_start blockEccLen nShort sLen j"
    by (simp add: block_start_def)
  have "0 \<le> (numBlocks - j) * ?d" using assms(1,4) by simp
  then have "j * ?d \<le> numBlocks * ?d" by (simp add: algebra_simps)
  moreover have "max 0 (j - nShort) \<le> numBlocks - nShort" using assms(2,4) by simp
  ultimately show "block_start blockEccLen nShort sLen j \<le> numBlocks * ?d + (numBlocks - nShort)"
    unfolding block_start_def by linarith
qed

lemma split_blocks_structure:
  assumes ne: "rsDiv \<noteq> []" and le: "int (length rsDiv) = blockEccLen"
    and d: "0 \<le> sLen - blockEccLen" and ns: "nShort \<le> numBlocks"
    and tot: "numBlocks * (sLen - blockEccLen) + (numBlocks - nShort) \<le> int (length data)"
  shows "0 \<le> i \<Longrightarrow> i \<le> numBlocks \<Longrightarrow> k = block_start blockEccLen nShort sLen i \<Longrightarrow>
     split_blocks data rsDiv numBlocks blockEccLen nShort sLen i k blocks = Inr bs \<Longrightarrow>
     \<exists>new. bs = blocks @ new \<and> int (length new) = numBlocks - i
       \<and> (\<forall>j<length new. \<exists>e.
             reedSolomonComputeRemainder (block_data data blockEccLen nShort sLen (i + int j)) rsDiv
               = Inr e
           \<and> int (length e) = blockEccLen
           \<and> int (length (block_data data blockEccLen nShort sLen (i + int j)))
               = block_data_len blockEccLen nShort sLen (i + int j)
           \<and> new ! j = block_data data blockEccLen nShort sLen (i + int j)
                          @ (if i + int j < nShort then [0] else []) @ e)"
proof (induction "nat (numBlocks - i)" arbitrary: i k blocks)
  case 0
  then have "\<not> i < numBlocks" by simp
  with "0.prems"(4) have "bs = blocks" by (subst (asm) split_blocks.simps) simp
  moreover have "int (length ([] :: int list list)) = numBlocks - i" using 0 by simp
  ultimately show ?case by (intro exI [of _ "[]"]) simp
next
  case (Suc n)
  let ?len = "block_data_len blockEccLen nShort sLen i"
  let ?dat = "slice_array data k (k + sLen - blockEccLen + (if i < nShort then 0 else 1))"
  let ?bd = "block_data data blockEccLen nShort sLen i"
  from Suc.hyps(2) have lt: "i < numBlocks" by simp
  have len0: "0 \<le> ?len" using d by (simp add: block_data_len_def)
  have hi: "k + sLen - blockEccLen + (if i < nShort then 0 else 1) = k + ?len"
    by (simp add: block_data_len_def)
  have k0: "0 \<le> k"
    using block_start_le(1) [OF d ns Suc.prems(1,2)] Suc.prems(3) by simp
  have "block_start blockEccLen nShort sLen (i + 1)
      \<le> numBlocks * (sLen - blockEccLen) + (numBlocks - nShort)"
    using lt Suc.prems(1) by (intro block_start_le(2) [OF d ns]) simp_all
  then have fit: "k + ?len \<le> int (length data)"
    using tot Suc.prems(3) by (simp add: block_start_Suc)
  have "?dat = slice_array data k (k + ?len)" by (simp only: hi)
  also have "\<dots> = take (nat ?len) (drop (nat k) data)"
    using slice_array_take_drop [of k "k + ?len" data] k0 len0 by simp
  also have "\<dots> = ?bd" using Suc.prems(3) by (simp add: block_data_def)
  finally have dat: "?dat = ?bd" .
  have lbd: "int (length ?bd) = ?len"
    using fit k0 len0 Suc.prems(3) by (simp add: block_data_def)
  show ?case
  proof (cases "reedSolomonComputeRemainder ?dat rsDiv")
    case (Inl e)
    with lt Suc.prems(4) show ?thesis
      by (subst (asm) split_blocks.simps) (simp add: Let_def)
  next
    case (Inr e)
    let ?block = "(if i < nShort then ?dat @ [0] else ?dat) @ e"
    from lt Inr Suc.prems(4)
    have run: "split_blocks data rsDiv numBlocks blockEccLen nShort sLen (i + 1)
        (k + int (length ?dat)) (blocks @ [?block]) = Inr bs"
      by (subst (asm) split_blocks.simps) (simp add: Let_def)
    have ldat: "int (length ?dat) = ?len" by (simp only: dat lbd)
    have k': "k + int (length ?dat) = block_start blockEccLen nShort sLen (i + 1)"
      using ldat Suc.prems(3) block_start_Suc [of blockEccLen nShort sLen i] by linarith
    have "n = nat (numBlocks - (i + 1))" using Suc.hyps(2) by simp
    from Suc.hyps(1) [OF this _ _ k' run] lt Suc.prems(1)
    obtain new where bs: "bs = (blocks @ [?block]) @ new"
      and lnew: "int (length new) = numBlocks - (i + 1)"
      and str: "\<forall>j<length new. \<exists>e.
             reedSolomonComputeRemainder (block_data data blockEccLen nShort sLen (i + 1 + int j)) rsDiv
               = Inr e
           \<and> int (length e) = blockEccLen
           \<and> int (length (block_data data blockEccLen nShort sLen (i + 1 + int j)))
               = block_data_len blockEccLen nShort sLen (i + 1 + int j)
           \<and> new ! j = block_data data blockEccLen nShort sLen (i + 1 + int j)
                          @ (if i + 1 + int j < nShort then [0] else []) @ e"
      by auto
    have le': "int (length e) = blockEccLen"
      using reedSolomonComputeRemainder_returns [OF Inr ne] le by simp
    have blk: "?block = ?bd @ (if i < nShort then [0] else []) @ e"
      by (simp only: dat) simp
    have "bs = blocks @ (?block # new)" using bs by simp
    moreover have "int (length (?block # new)) = numBlocks - i" using lnew by simp
    moreover have "\<forall>j<length (?block # new). \<exists>e.
             reedSolomonComputeRemainder (block_data data blockEccLen nShort sLen (i + int j)) rsDiv
               = Inr e
           \<and> int (length e) = blockEccLen
           \<and> int (length (block_data data blockEccLen nShort sLen (i + int j)))
               = block_data_len blockEccLen nShort sLen (i + int j)
           \<and> (?block # new) ! j = block_data data blockEccLen nShort sLen (i + int j)
                          @ (if i + int j < nShort then [0] else []) @ e"
    proof (intro allI impI)
      fix j assume j: "j < length (?block # new)"
      show "\<exists>e. reedSolomonComputeRemainder (block_data data blockEccLen nShort sLen (i + int j)) rsDiv
               = Inr e
           \<and> int (length e) = blockEccLen
           \<and> int (length (block_data data blockEccLen nShort sLen (i + int j)))
               = block_data_len blockEccLen nShort sLen (i + int j)
           \<and> (?block # new) ! j = block_data data blockEccLen nShort sLen (i + int j)
                          @ (if i + int j < nShort then [0] else []) @ e"
      proof (cases j)
        case 0
        with Inr le' lbd blk show ?thesis by (simp only: dat) simp
      next
        case (Suc j')
        with j have "j' < length new" by simp
        with str have "\<exists>e.
             reedSolomonComputeRemainder (block_data data blockEccLen nShort sLen (i + 1 + int j')) rsDiv
               = Inr e
           \<and> int (length e) = blockEccLen
           \<and> int (length (block_data data blockEccLen nShort sLen (i + 1 + int j')))
               = block_data_len blockEccLen nShort sLen (i + 1 + int j')
           \<and> new ! j' = block_data data blockEccLen nShort sLen (i + 1 + int j')
                          @ (if i + 1 + int j' < nShort then [0] else []) @ e"
          by blast
        moreover have "i + 1 + int j' = i + int j" using Suc by simp
        ultimately show ?thesis using Suc by simp
      qed
    qed
    ultimately show ?thesis by blast
  qed
qed

lemma map_filter_product:
  "map F (filter P (List.product xs ys))
     = concat (map (\<lambda>x. map (\<lambda>y. F (x, y)) (filter (\<lambda>y. P (x, y)) ys)) xs)"
  by (induction xs) (simp_all add: filter_map comp_def)

lemma enumerate_nth: "enumerate 0 xs = map (\<lambda>j. (j, xs ! j)) [0..<length xs]"
  by (rule nth_equalityI) (simp_all add: nth_enumerate_eq)

lemma interleave_row_nth:
  assumes "\<forall>b\<in>set blocks. i < length b"
  shows "interleave_row blockEccLen nShort sLen blocks i
     = map (\<lambda>j. Some (blocks ! j ! i))
         (filter (\<lambda>j. \<not> (int i = sLen - blockEccLen \<and> int j < nShort)) [0..<length blocks])"
proof -
  have "interleave_row blockEccLen nShort sLen blocks i
      = map (\<lambda>j. js_get (blocks ! j) i)
          (filter (\<lambda>j. int i \<noteq> sLen - blockEccLen \<or> nShort \<le> int j) [0..<length blocks])"
    by (simp add: interleave_row_def enumerate_nth filter_map comp_def)
  also have "\<dots> = map (\<lambda>j. Some (blocks ! j ! i))
          (filter (\<lambda>j. int i \<noteq> sLen - blockEccLen \<or> nShort \<le> int j) [0..<length blocks])"
    using assms by (intro map_cong refl) (simp add: js_get_def)
  also have "(\<lambda>j. int i \<noteq> sLen - blockEccLen \<or> nShort \<le> int j)
      = (\<lambda>j. \<not> (int i = sLen - blockEccLen \<and> int j < nShort))"
    by (auto simp add: fun_eq_iff)
  finally show ?thesis .
qed

lemma interleave_content:
  assumes "interleave blockEccLen nShort sLen rawCodewords blocks = Inr r"
    and "\<forall>b\<in>set blocks. int (length b) = sLen + 1"
  shows "r = map (\<lambda>(i, j). Some (blocks ! j ! i))
               (filter (\<lambda>(i, j). \<not> (int i = sLen - blockEccLen \<and> int j < nShort))
                  (List.product [0..<nat (sLen + 1)] [0..<length blocks]))"
    and "int (length r) = rawCodewords"
proof -
  from assms(1) obtain block0 rest where b: "blocks = block0 # rest"
    by (cases blocks) (simp_all add: interleave_def)
  with assms(2) have "int (length block0) = sLen + 1" by simp
  then have l0: "length block0 = nat (sLen + 1)" by linarith
  from assms(1) b
  have r: "r = concat (map (interleave_row blockEccLen nShort sLen blocks) [0..<nat (sLen + 1)])"
    and "int (length r) = rawCodewords"
    by (simp_all add: interleave_def Let_def l0 split: if_splits)
  then show "int (length r) = rawCodewords" by simp
  have "map (interleave_row blockEccLen nShort sLen blocks) [0..<nat (sLen + 1)]
      = map (\<lambda>i. map (\<lambda>j. Some (blocks ! j ! i))
              (filter (\<lambda>j. \<not> (int i = sLen - blockEccLen \<and> int j < nShort)) [0..<length blocks]))
          [0..<nat (sLen + 1)]"
  proof (intro map_cong refl interleave_row_nth ballI)
    fix i c assume "i \<in> set [0..<nat (sLen + 1)]" and "c \<in> set blocks"
    with assms(2) show "i < length c" by fastforce
  qed
  then show "r = map (\<lambda>(i, j). Some (blocks ! j ! i))
               (filter (\<lambda>(i, j). \<not> (int i = sLen - blockEccLen \<and> int j < nShort))
                  (List.product [0..<nat (sLen + 1)] [0..<length blocks]))"
    by (simp only: r map_filter_product case_prod_conv)
qed

lemma block_data_concat:
  assumes "0 \<le> sLen - blockEccLen" and "0 \<le> nShort"
  shows "concat (map (\<lambda>j. block_data data blockEccLen nShort sLen (int j)) [0..<m])
     = take (nat (block_start blockEccLen nShort sLen (int m))) data"
proof (induction m)
  case 0
  show ?case using assms(2) by (simp add: block_start_def max_def)
next
  case (Suc m)
  let ?s = "block_start blockEccLen nShort sLen (int m)"
  let ?l = "block_data_len blockEccLen nShort sLen (int m)"
  have s0: "0 \<le> ?s" using assms(1) by (simp add: block_start_def)
  have l0: "0 \<le> ?l" using assms(1) by (simp add: block_data_len_def)
  have "block_start blockEccLen nShort sLen (int (Suc m)) = ?s + ?l"
    using block_start_Suc [of blockEccLen nShort sLen "int m"] by (simp add: add.commute)
  then have "nat (block_start blockEccLen nShort sLen (int (Suc m))) = nat ?s + nat ?l"
    using s0 l0 by (simp add: nat_add_distrib)
  then show ?case
    using Suc.IH by (simp add: take_add block_data_def)
qed

lemma addEccAndInterleave_returns:
  fixes lv :: "string \<Rightarrow> nat" and qr :: QRCode
  defines "nb \<equiv> NUM_ERROR_CORRECTION_BLOCKS qr (lv (error_correction_level qr)) (version qr)"
    and "ecc \<equiv> ECC_CODEWORDS_PER_BLOCK qr (lv (error_correction_level qr)) (version qr)"
  assumes nb: "1 \<le> nb"
    and raw: "getNumRawDataModules (version qr) = Inr raw"
    and run: "addEccAndInterleave lv data qr = Inr result"
  shows "\<exists>blocks rsDiv.
        ecc_blocks lv data qr = Inr blocks
      \<and> reedSolomonComputeDivisor ecc = Inr rsDiv
      \<and> 1 \<le> ecc \<and> ecc \<le> shortBlockLen nb (raw div 8)
      \<and> int (length data) = raw div 8 - ecc * nb
      \<and> int (length blocks) = nb
      \<and> (\<forall>j<length blocks. \<exists>e.
            reedSolomonComputeRemainder
              (block_data data ecc (numShortBlocks nb (raw div 8)) (shortBlockLen nb (raw div 8)) (int j))
              rsDiv = Inr e
          \<and> int (length e) = ecc
          \<and> int (length (block_data data ecc (numShortBlocks nb (raw div 8))
                            (shortBlockLen nb (raw div 8)) (int j)))
              = block_data_len ecc (numShortBlocks nb (raw div 8)) (shortBlockLen nb (raw div 8)) (int j)
          \<and> blocks ! j = block_data data ecc (numShortBlocks nb (raw div 8))
                            (shortBlockLen nb (raw div 8)) (int j)
                          @ (if int j < numShortBlocks nb (raw div 8) then [0] else []) @ e)
      \<and> interleave ecc (numShortBlocks nb (raw div 8)) (shortBlockLen nb (raw div 8))
            (raw div 8) blocks = Inr result"
proof -
  let ?rawC = "raw div 8"
  let ?nShort = "numShortBlocks nb ?rawC"
  let ?sLen = "shortBlockLen nb ?rawC"
  from run obtain blocks where b: "ecc_blocks lv data qr = Inr blocks"
    by (cases "ecc_blocks lv data qr") (simp_all add: addEccAndInterleave_eq)
  with run raw have il: "interleave ecc ?nShort ?sLen ?rawC blocks = Inr result"
    by (simp add: addEccAndInterleave_eq nb_def ecc_def)
  have n: "getNumDataCodewords lv (version qr) qr = Inr (?rawC - ecc * nb)"
    using getNumDataCodewords_eq [OF raw, of lv qr] by (simp add: nb_def ecc_def)
  from b n raw have ld: "int (length data) = ?rawC - ecc * nb"
    by (simp add: ecc_blocks_def Let_def split: if_splits)
  from b n raw ld obtain rsDiv where dv: "reedSolomonComputeDivisor ecc = Inr rsDiv"
    and sp: "split_blocks data rsDiv nb ecc ?nShort ?sLen 0 0 [] = Inr blocks"
    by (cases "reedSolomonComputeDivisor ecc")
      (simp_all add: ecc_blocks_def Let_def nb_def ecc_def)
  note dr = reedSolomonComputeDivisor_returns [OF dv]
  from dr have ne: "rsDiv \<noteq> []" by auto
  have "ecc * nb \<le> ?rawC" using ld by linarith
  then have "(ecc * nb) div nb \<le> ?rawC div nb" using nb by (intro zdiv_mono1) simp_all
  then have es: "ecc \<le> ?sLen" using nb by (simp add: shortBlockLen_def)
  then have d: "0 \<le> ?sLen - ecc" by simp
  note nsb = numShortBlocks_bounds [OF nb, of ?rawC]
  have "nb * (?sLen - ecc) + (nb - ?nShort) = ?rawC - ecc * nb"
    using raw_split [of ?rawC nb] by (simp add: algebra_simps)
  then have tot: "nb * (?sLen - ecc) + (nb - ?nShort) \<le> int (length data)"
    using ld by simp
  have k0: "0 = block_start ecc ?nShort ?sLen 0"
    using nsb(1) by (simp add: block_start_def)
  from split_blocks_structure [OF ne dr(3) d nsb(2) tot _ _ k0 sp] nb
  obtain new where "blocks = [] @ new" and l: "int (length new) = nb - 0"
    and str: "\<forall>j<length new. \<exists>e.
            reedSolomonComputeRemainder (block_data data ecc ?nShort ?sLen (0 + int j)) rsDiv = Inr e
          \<and> int (length e) = ecc
          \<and> int (length (block_data data ecc ?nShort ?sLen (0 + int j)))
              = block_data_len ecc ?nShort ?sLen (0 + int j)
          \<and> new ! j = block_data data ecc ?nShort ?sLen (0 + int j)
                          @ (if 0 + int j < ?nShort then [0] else []) @ e"
    by auto
  then have "new = blocks" by simp
  with l str b dv dr(1) es ld il show ?thesis
    by (intro exI [of _ blocks] exI [of _ rsDiv]) simp
qed

lemma sample_1L_no_ecc:
  "version sample_qr_1L_no_ecc = 1"
  "NUM_ERROR_CORRECTION_BLOCKS sample_qr_1L_no_ecc
     (sample_levels (error_correction_level sample_qr_1L_no_ecc)) 1 = 1"
  "ECC_CODEWORDS_PER_BLOCK sample_qr_1L_no_ecc
     (sample_levels (error_correction_level sample_qr_1L_no_ecc)) 1 = 0"
  "getNumDataCodewords sample_levels 1 sample_qr_1L_no_ecc = Inr 26"
  "length sample_data_26 = 26"
  "bytes sample_data_26"
  by (simp_all add: sample_qr_1L_no_ecc_def sample_levels_def sample_blocks_table_def
      getNumRawDataModules_def getNumDataCodewords_def sample_data_26_def bytes_def is_byte_int_def)

text \<open>
  Claim C10, amended.  With \<open>numBlocks \<ge> 1\<close>,
  \<open>numShortBlocks = numBlocks - rawCodewords mod numBlocks\<close> lies in \<open>[1, numBlocks]\<close>, and
  equals \<open>numBlocks\<close> when \<open>numBlocks\<close> divides \<open>rawCodewords\<close>.  In every such call
  that returns a result: the blocks cut \<open>data\<close> into consecutive pieces; block \<open>j\<close> is
  its piece of data, then one zero pad byte if \<open>j < numShortBlocks\<close>, then the remainder
  of that piece by the divisor; so every block below \<open>numShortBlocks\<close>, the first block
  among them, holds the pad byte at position \<open>shortBlockLen - blockEccLen\<close>; and the
  result is, position by position and block by block, every byte of every block
  except exactly these pad bytes.
\<close>

theorem numShortBlocks_at_least_one:
  fixes ErrorCorrectionLevels :: "string \<Rightarrow> nat" and QrCode :: QRCode and rawCodewords :: int
  defines "numBlocks \<equiv> NUM_ERROR_CORRECTION_BLOCKS QrCode
             (ErrorCorrectionLevels (error_correction_level QrCode)) (version QrCode)"
    and "blockEccLen \<equiv> ECC_CODEWORDS_PER_BLOCK QrCode
             (ErrorCorrectionLevels (error_correction_level QrCode)) (version QrCode)"
    and "nShort \<equiv> numShortBlocks (NUM_ERROR_CORRECTION_BLOCKS QrCode
             (ErrorCorrectionLevels (error_correction_level QrCode)) (version QrCode)) rawCodewords"
    and "sLen \<equiv> shortBlockLen (NUM_ERROR_CORRECTION_BLOCKS QrCode
             (ErrorCorrectionLevels (error_correction_level QrCode)) (version QrCode)) rawCodewords"
  assumes "1 \<le> numBlocks"
  shows "1 \<le> nShort \<and> nShort \<le> numBlocks
       \<and> (rawCodewords mod numBlocks = 0 \<longrightarrow> nShort = numBlocks)
       \<and> (getNumRawDataModules (version QrCode) = Inr raw \<and> rawCodewords = raw div 8
            \<and> addEccAndInterleave ErrorCorrectionLevels data QrCode = Inr result
          \<longrightarrow> (\<exists>blocks rsDiv.
                 ecc_blocks ErrorCorrectionLevels data QrCode = Inr blocks
               \<and> reedSolomonComputeDivisor blockEccLen = Inr rsDiv
               \<and> int (length blocks) = numBlocks
               \<and> data = concat (map (\<lambda>j. block_data data blockEccLen nShort sLen (int j))
                                  [0..<length blocks])
               \<and> (\<forall>j<length blocks. \<exists>e.
                      reedSolomonComputeRemainder
                        (block_data data blockEccLen nShort sLen (int j)) rsDiv = Inr e
                    \<and> blocks ! j = block_data data blockEccLen nShort sLen (int j)
                                    @ (if int j < nShort then [0] else []) @ e
                    \<and> int (length (block_data data blockEccLen nShort sLen (int j)))
                        = sLen - blockEccLen + (if int j < nShort then 0 else 1)
                    \<and> int (length e) = blockEccLen)
               \<and> (\<forall>j<length blocks. int j < nShort \<longrightarrow>
                      blocks ! j ! nat (sLen - blockEccLen) = 0)
               \<and> hd blocks ! nat (sLen - blockEccLen) = 0
               \<and> result = map (\<lambda>(i, j). Some (blocks ! j ! i))
                            (filter (\<lambda>(i, j). \<not> (int i = sLen - blockEccLen \<and> int j < nShort))
                               (List.product [0..<nat (sLen + 1)] [0..<length blocks]))
               \<and> int (length result) = int (sum_list (map length blocks)) - nShort))"
proof (intro conjI impI)
  have ns: "nShort = numShortBlocks numBlocks rawCodewords"
    and sl: "sLen = shortBlockLen numBlocks rawCodewords"
    by (simp_all add: nShort_def sLen_def numBlocks_def)
  show one: "1 \<le> nShort" and le: "nShort \<le> numBlocks"
    unfolding ns using assms(5) by (rule numShortBlocks_bounds)+
  show "nShort = numBlocks" if "rawCodewords mod numBlocks = 0"
    using that by (simp add: ns numShortBlocks_def)
  assume h: "getNumRawDataModules (version QrCode) = Inr raw \<and> rawCodewords = raw div 8
            \<and> addEccAndInterleave ErrorCorrectionLevels data QrCode = Inr result"
  then have raw: "getNumRawDataModules (version QrCode) = Inr raw"
    and rc: "rawCodewords = raw div 8"
    and run: "addEccAndInterleave ErrorCorrectionLevels data QrCode = Inr result" by auto
  from addEccAndInterleave_returns [OF assms(5) [unfolded numBlocks_def] raw run]
  obtain blocks rsDiv where b: "ecc_blocks ErrorCorrectionLevels data QrCode = Inr blocks"
    and dv: "reedSolomonComputeDivisor blockEccLen = Inr rsDiv"
    and e1: "1 \<le> blockEccLen" and es: "blockEccLen \<le> sLen"
    and ld: "int (length data) = rawCodewords - blockEccLen * numBlocks"
    and l: "int (length blocks) = numBlocks"
    and str: "\<forall>j<length blocks. \<exists>e.
            reedSolomonComputeRemainder (block_data data blockEccLen nShort sLen (int j)) rsDiv
              = Inr e
          \<and> int (length e) = blockEccLen
          \<and> int (length (block_data data blockEccLen nShort sLen (int j)))
              = block_data_len blockEccLen nShort sLen (int j)
          \<and> blocks ! j = block_data data blockEccLen nShort sLen (int j)
                          @ (if int j < nShort then [0] else []) @ e"
    and il: "interleave blockEccLen nShort sLen rawCodewords blocks = Inr result"
    unfolding numBlocks_def blockEccLen_def nShort_def sLen_def rc by blast
  have d: "0 \<le> sLen - blockEccLen" using es by simp
  have lens: "\<forall>c\<in>set blocks. int (length c) = sLen + 1"
  proof
    fix c assume "c \<in> set blocks"
    then obtain j where j: "j < length blocks" and c: "c = blocks ! j"
      by (auto simp add: in_set_conv_nth)
    from str j obtain e where "int (length e) = blockEccLen"
      and "int (length (block_data data blockEccLen nShort sLen (int j)))
              = block_data_len blockEccLen nShort sLen (int j)"
      and "blocks ! j = block_data data blockEccLen nShort sLen (int j)
                          @ (if int j < nShort then [0] else []) @ e" by blast
    then show "int (length c) = sLen + 1"
      by (simp add: c block_data_len_def)
  qed
  have pads: "\<forall>j<length blocks. int j < nShort \<longrightarrow> blocks ! j ! nat (sLen - blockEccLen) = 0"
  proof (intro allI impI)
    fix j assume j: "j < length blocks" and s: "int j < nShort"
    from str j obtain e where
      "int (length (block_data data blockEccLen nShort sLen (int j)))
              = block_data_len blockEccLen nShort sLen (int j)"
      and bj: "blocks ! j = block_data data blockEccLen nShort sLen (int j)
                          @ (if int j < nShort then [0] else []) @ e" by blast
    with s have "length (block_data data blockEccLen nShort sLen (int j)) = nat (sLen - blockEccLen)"
      by (simp add: block_data_len_def)
    with s bj show "blocks ! j ! nat (sLen - blockEccLen) = 0"
      by (simp add: nth_append)
  qed
  have ne: "blocks \<noteq> []" using l assms(5) by auto
  have hd0: "hd blocks ! nat (sLen - blockEccLen) = 0"
    using pads [rule_format, of 0] ne one by (simp add: hd_conv_nth)
  note ic = interleave_content [OF il lens]
  have "\<forall>c\<in>set blocks. length c = nat (sLen + 1)" using lens by auto
  then have "map length blocks = map (\<lambda>_. nat (sLen + 1)) blocks"
    by (simp only: map_eq_conv)
  then have "sum_list (map length blocks) = length blocks * nat (sLen + 1)"
    by (simp add: map_replicate_const sum_list_replicate)
  then have "int (sum_list (map length blocks)) = numBlocks * (sLen + 1)"
    using l d e1 by simp
  also have "\<dots> = rawCodewords + nShort"
    using raw_split [of rawCodewords numBlocks] by (simp add: algebra_simps ns sl)
  finally have sum: "int (length result) = int (sum_list (map length blocks)) - nShort"
    using ic(2) by simp
  have "block_start blockEccLen nShort sLen (int (length blocks))
      = numBlocks * (sLen - blockEccLen) + (numBlocks - nShort)"
    using l le by (simp add: block_start_def max_def)
  also have "\<dots> = int (length data)"
    using raw_split [of rawCodewords numBlocks] ld by (simp add: algebra_simps ns sl)
  finally have "concat (map (\<lambda>j. block_data data blockEccLen nShort sLen (int j)) [0..<length blocks])
      = data"
    using block_data_concat [OF d, of nShort data "length blocks"] one by simp
  then have part: "data = concat (map (\<lambda>j. block_data data blockEccLen nShort sLen (int j))
                                  [0..<length blocks])" by simp
  have str': "\<forall>j<length blocks. \<exists>e.
                      reedSolomonComputeRemainder
                        (block_data data blockEccLen nShort sLen (int j)) rsDiv = Inr e
                    \<and> blocks ! j = block_data data blockEccLen nShort sLen (int j)
                                    @ (if int j < nShort then [0] else []) @ e
                    \<and> int (length (block_data data blockEccLen nShort sLen (int j)))
                        = sLen - blockEccLen + (if int j < nShort then 0 else 1)
                    \<and> int (length e) = blockEccLen"
    using str by (simp only: block_data_len_def) blast
  show "\<exists>blocks rsDiv.
                 ecc_blocks ErrorCorrectionLevels data QrCode = Inr blocks
               \<and> reedSolomonComputeDivisor blockEccLen = Inr rsDiv
               \<and> int (length blocks) = numBlocks
               \<and> data = concat (map (\<lambda>j. block_data data blockEccLen nShort sLen (int j))
                                  [0..<length blocks])
               \<and> (\<forall>j<length blocks. \<exists>e.
                      reedSolomonComputeRemainder
                        (block_data data blockEccLen nShort sLen (int j)) rsDiv = Inr e
                    \<and> blocks ! j = block_data data blockEccLen nShort sLen (int j)
                                    @ (if int j < nShort then [0] else []) @ e
                    \<and> int (length (block_data data blockEccLen nShort sLen (int j)))
                        = sLen - blockEccLen + (if int j < nShort then 0 else 1)
                    \<and> int (length e) = blockEccLen)
               \<and> (\<forall>j<length blocks. int j < nShort \<longrightarrow>
                      blocks ! j ! nat (sLen - blockEccLen) = 0)
               \<and> hd blocks ! nat (sLen - blockEccLen) = 0
               \<and> result = map (\<lambda>(i, j). Some (blocks ! j ! i))
                            (filter (\<lambda>(i, j). \<not> (int i = sLen - blockEccLen \<and> int j < nShort))
                               (List.product [0..<nat (sLen + 1)] [0..<length blocks]))
               \<and> int (length result) = int (sum_list (map length blocks)) - nShort"
    using b dv l part str' pads hd0 ic(1) sum
    by (intro exI [of _ blocks] exI [of _ rsDiv] conjI)
qed

theorem numShortBlocks_at_least_one_witness:
  "numShortBlocks 1 26 = 1
   \<and> (\<exists>blocks result.
         addEccAndInterleave sample_levels sample_data_1L sample_qr_1L = Inr result
       \<and> ecc_blocks sample_levels sample_data_1L sample_qr_1L = Inr blocks
       \<and> length blocks = 1
       \<and> hd blocks ! 19 = 0
       \<and> int (length result) = int (sum_list (map length blocks)) - 1)"
proof -
  from addEccAndInterleave_ok [where qr = sample_qr_1L and lv = sample_levels
      and data = sample_data_1L and raw = 208]
  obtain result where "addEccAndInterleave sample_levels sample_data_1L sample_qr_1L = Inr result"
    by (auto simp add: sample_1L shortBlockLen_def)
  with numShortBlocks_at_least_one [where QrCode = sample_qr_1L
      and ErrorCorrectionLevels = sample_levels and data = sample_data_1L and raw = 208
      and rawCodewords = 26 and result = result]
  show ?thesis
    by (auto simp add: sample_1L shortBlockLen_def numShortBlocks_def)
qed

text \<open>
  Version 1 with one block and a table entry of 0 error-correction codewords: the data
  has the expected 26 bytes, and the call throws "Degree out of range" before any
  block is built, so no pad byte is appended.
\<close>

theorem numShortBlocks_at_least_one_counterexample:
  "NUM_ERROR_CORRECTION_BLOCKS sample_qr_1L_no_ecc
     (sample_levels (error_correction_level sample_qr_1L_no_ecc))
     (version sample_qr_1L_no_ecc) = 1
   \<and> getNumDataCodewords sample_levels (version sample_qr_1L_no_ecc) sample_qr_1L_no_ecc
       = Inr (int (length sample_data_26))
   \<and> ecc_blocks sample_levels sample_data_26 sample_qr_1L_no_ecc = Inl DegreeOutOfRange
   \<and> addEccAndInterleave sample_levels sample_data_26 sample_qr_1L_no_ecc
       = Inl DegreeOutOfRange"
  by (simp add: sample_1L_no_ecc sample_1L(2) ecc_blocks_def addEccAndInterleave_def Let_def
      reedSolomonComputeDivisor_def)

section \<open>The divisor is only read\<close>

lemma store_same: "store r (cells h r) h = h"
  by (simp add: store_def)

lemma store_store: "store r xs (store r ys h) = store r xs h"
  by (simp add: store_def)

lemma cells_store: "cells (store r xs h) a = (if a = r then xs else cells h a)"
  by (simp add: store_def)

lemma next_ref_store: "next_ref (store r xs h) = next_ref h"
  by (simp add: store_def)

lemma remainder_forEach_st_refines:
  assumes "result \<noteq> divisor"
  shows "\<exists>res. snd (remainder_forEach_st divisor result factor i h) = store result res h
     \<and> (case remainder_forEach (cells h divisor) factor i (cells h result) of
           Inl e \<Rightarrow> fst (remainder_forEach_st divisor result factor i h) = Some e
         | Inr out \<Rightarrow> fst (remainder_forEach_st divisor result factor i h) = None \<and> res = out)"
  using assms
proof (induction divisor result factor i h rule: remainder_forEach_st.induct)
  case (1 divisor result factor i h)
  show ?case
  proof (cases "i < length (cells h divisor)")
    case False
    then have "remainder_forEach_st divisor result factor i h = (None, h)"
      by (subst remainder_forEach_st.simps) simp
    moreover from False
    have "remainder_forEach (cells h divisor) factor i (cells h result) = Inr (cells h result)"
      by (subst remainder_forEach.simps) simp
    ultimately show ?thesis
      by (intro exI [of _ "cells h result"]) (simp add: store_same)
  next
    case True
    show ?thesis
    proof (cases "reedSolomonMultiply (cells h divisor ! i) factor")
      case (Inl e)
      with True have "remainder_forEach_st divisor result factor i h = (Some e, h)"
        by (subst remainder_forEach_st.simps) simp
      moreover from True Inl
      have "remainder_forEach (cells h divisor) factor i (cells h result) = Inl e"
        by (subst remainder_forEach.simps) simp
      ultimately show ?thesis
        by (intro exI [of _ "cells h result"]) (simp add: store_same)
    next
      case (Inr m)
      let ?h1 = "store result (xor_assign (cells h result) i m) h"
      have st: "remainder_forEach_st divisor result factor i h
          = remainder_forEach_st divisor result factor (i + 1) ?h1"
        using True Inr by (subst remainder_forEach_st.simps) simp
      have pu: "remainder_forEach (cells h divisor) factor i (cells h result)
          = remainder_forEach (cells h divisor) factor (i + 1) (xor_assign (cells h result) i m)"
        using True Inr by (subst remainder_forEach.simps) simp
      have c1: "cells ?h1 divisor = cells h divisor" "cells ?h1 result = xor_assign (cells h result) i m"
        using "1.prems" by (simp_all add: cells_store)
      from "1.IH" [OF True Inr "1.prems"] show ?thesis
        by (simp only: st pu c1 store_store)
    qed
  qed
qed

lemma remainder_loop_st_refines:
  assumes "result \<noteq> data" "result \<noteq> divisor"
  shows "\<exists>out res. remainder_loop_st data divisor result n h = Some (out, store result res h)
     \<and> (case remainder_loop (cells h divisor) (drop n (cells h data)) (cells h result) of
           Inl e \<Rightarrow> out = Some e
         | Inr r \<Rightarrow> out = None \<and> res = r)"
proof (induction "length (cells h data) - n" arbitrary: n h)
  case 0
  then have "\<not> n < length (cells h data)" by simp
  then have "remainder_loop_st data divisor result n h = Some (None, h)"
    and "drop n (cells h data) = []"
    by (subst remainder_loop_st.simps, simp_all)
  then show ?case
    by (intro exI [of _ None] exI [of _ "cells h result"]) (simp add: store_same)
next
  case (Suc k)
  then have lt: "n < length (cells h data)" by simp
  let ?b = "cells h data ! n"
  obtain r rest where sh: "shift (cells h result) = (r, rest)" by (cases "shift (cells h result)")
  let ?factor = "xor32 ?b r"
  let ?h1 = "store result (rest @ [0]) h"
  have c1: "cells ?h1 divisor = cells h divisor" "cells ?h1 data = cells h data"
    "cells ?h1 result = rest @ [0]"
    using assms by (simp_all add: cells_store)
  have dr: "drop n (cells h data) = ?b # drop (n + 1) (cells h data)"
    using lt by (simp add: Cons_nth_drop_Suc)
  from remainder_forEach_st_refines [OF assms(2), of ?factor 0 ?h1]
  obtain res1 where s1: "snd (remainder_forEach_st divisor result ?factor 0 ?h1) = store result res1 h"
    and f1: "case remainder_forEach (cells h divisor) ?factor 0 (rest @ [0]) of
           Inl e \<Rightarrow> fst (remainder_forEach_st divisor result ?factor 0 ?h1) = Some e
         | Inr out \<Rightarrow> fst (remainder_forEach_st divisor result ?factor 0 ?h1) = None \<and> res1 = out"
    by (auto simp only: c1 store_store)
  show ?case
  proof (cases "remainder_forEach (cells h divisor) ?factor 0 (rest @ [0])")
    case (Inl e)
    with f1 s1 have "remainder_forEach_st divisor result ?factor 0 ?h1 = (Some e, store result res1 h)"
      by (simp add: prod_eq_iff)
    then have "remainder_loop_st data divisor result n h = Some (Some e, store result res1 h)"
      using lt sh by (subst remainder_loop_st.simps) (simp add: Let_def)
    moreover have "remainder_loop (cells h divisor) (drop n (cells h data)) (cells h result) = Inl e"
      using Inl sh by (simp add: dr)
    ultimately show ?thesis by auto
  next
    case (Inr out)
    let ?h2 = "store result out h"
    from Inr f1 s1 have fe: "remainder_forEach_st divisor result ?factor 0 ?h1 = (None, ?h2)"
      by (simp add: prod_eq_iff)
    have st: "remainder_loop_st data divisor result n h
        = remainder_loop_st data divisor result (n + 1) ?h2"
      using lt sh fe by (subst remainder_loop_st.simps) (simp add: Let_def)
    have pu: "remainder_loop (cells h divisor) (drop n (cells h data)) (cells h result)
        = remainder_loop (cells h divisor) (drop (n + 1) (cells h data)) out"
      using Inr sh by (simp add: dr)
    have c2: "cells ?h2 divisor = cells h divisor" "cells ?h2 data = cells h data"
      "cells ?h2 result = out"
      using assms by (simp_all add: cells_store)
    have "k = length (cells ?h2 data) - (n + 1)" using Suc.hyps(2) c2 by simp
    from Suc.hyps(1) [OF this] show ?thesis
      by (simp only: st pu c2 store_store)
  qed
qed

lemma reedSolomonComputeRemainder_st_refines:
  assumes "data < next_ref h" and "divisor < next_ref h"
  shows "\<exists>out h'. reedSolomonComputeRemainder_st data divisor h = Some (out, h')
     \<and> (\<forall>a<next_ref h. cells h' a = cells h a)
     \<and> next_ref h' = Suc (next_ref h)
     \<and> map_sum id (cells h') out = reedSolomonComputeRemainder (cells h data) (cells h divisor)"
proof -
  let ?r = "next_ref h"
  let ?zeros = "map (\<lambda>_. 0) (cells h divisor)"
  let ?h1 = "h\<lparr>cells := (cells h)(?r := ?zeros), next_ref := Suc ?r\<rparr>"
  have fresh: "?r \<noteq> data" "?r \<noteq> divisor" using assms by simp_all
  have c1: "cells ?h1 divisor = cells h divisor" "cells ?h1 data = cells h data"
    "cells ?h1 ?r = ?zeros"
    using fresh by simp_all
  from remainder_loop_st_refines [OF fresh, of 0 ?h1]
  obtain out res where run: "remainder_loop_st data divisor ?r 0 ?h1 = Some (out, store ?r res ?h1)"
    and pu: "case remainder_loop (cells h divisor) (cells h data) ?zeros of
               Inl e \<Rightarrow> out = Some e | Inr r \<Rightarrow> out = None \<and> res = r"
    by (auto simp only: c1 drop_0)
  let ?h2 = "store ?r res ?h1"
  have frame: "\<forall>a<next_ref h. cells ?h2 a = cells h a"
    by (simp add: cells_store)
  have nxt: "next_ref ?h2 = Suc (next_ref h)"
    by (simp add: next_ref_store)
  show ?thesis
  proof (cases out)
    case None
    with pu have "reedSolomonComputeRemainder (cells h data) (cells h divisor) = Inr res"
      by (auto simp add: reedSolomonComputeRemainder_def split: sum.splits)
    moreover from None run
    have "reedSolomonComputeRemainder_st data divisor h = Some (Inr ?r, ?h2)"
      by (simp add: reedSolomonComputeRemainder_st_def new_array_def)
    moreover have "cells ?h2 ?r = res" by (simp add: cells_store)
    ultimately show ?thesis using frame nxt by (intro exI [of _ "Inr ?r"] exI [of _ ?h2]) simp
  next
    case (Some e)
    with pu have "reedSolomonComputeRemainder (cells h data) (cells h divisor) = Inl e"
      by (auto simp add: reedSolomonComputeRemainder_def split: sum.splits)
    moreover from Some run
    have "reedSolomonComputeRemainder_st data divisor h = Some (Inl e, ?h2)"
      by (simp add: reedSolomonComputeRemainder_st_def new_array_def)
    ultimately show ?thesis using frame nxt by (intro exI [of _ "Inl e"] exI [of _ ?h2]) simp
  qed
qed

text \<open>
  Claim C9.  For all arrays \<open>data\<close> and \<open>divisor\<close> of the store (they may be the same
  array), \<open>reedSolomonComputeRemainder\<close> ends, returning or throwing, and leaves
  \<open>divisor\<close> and every other array that existed before the call unchanged; what it
  returns is the remainder of the contents of \<open>data\<close> by the contents of \<open>divisor\<close>.
  Hence a second call with the same divisor reference, after the first, computes the
  remainder by the very same coefficients.
\<close>

theorem reedSolomonComputeRemainder_divisor_unchanged:
  assumes "data < next_ref h" and "divisor < next_ref h"
  shows "\<exists>out h'. reedSolomonComputeRemainder_st data divisor h = Some (out, h')
     \<and> cells h' divisor = cells h divisor
     \<and> (\<forall>a<next_ref h. cells h' a = cells h a)
     \<and> map_sum id (cells h') out = reedSolomonComputeRemainder (cells h data) (cells h divisor)
     \<and> (\<forall>data2<next_ref h. \<exists>out2 h2.
           reedSolomonComputeRemainder_st data2 divisor h' = Some (out2, h2)
         \<and> cells h2 divisor = cells h divisor
         \<and> map_sum id (cells h2) out2
             = reedSolomonComputeRemainder (cells h data2) (cells h divisor))"
proof -
  from reedSolomonComputeRemainder_st_refines [OF assms]
  obtain out h' where run: "reedSolomonComputeRemainder_st data divisor h = Some (out, h')"
    and frame: "\<forall>a<next_ref h. cells h' a = cells h a"
    and nxt: "next_ref h' = Suc (next_ref h)"
    and res: "map_sum id (cells h') out
        = reedSolomonComputeRemainder (cells h data) (cells h divisor)"
    by blast
  have d: "cells h' divisor = cells h divisor" using frame assms(2) by simp
  have "\<exists>out2 h2. reedSolomonComputeRemainder_st data2 divisor h' = Some (out2, h2)
         \<and> cells h2 divisor = cells h divisor
         \<and> map_sum id (cells h2) out2
             = reedSolomonComputeRemainder (cells h data2) (cells h divisor)"
    if "data2 < next_ref h" for data2
  proof -
    have "data2 < next_ref h'" "divisor < next_ref h'" using that assms(2) nxt by simp_all
    from reedSolomonComputeRemainder_st_refines [OF this]
    obtain out2 h2 where "reedSolomonComputeRemainder_st data2 divisor h' = Some (out2, h2)"
      and "\<forall>a<next_ref h'. cells h2 a = cells h' a"
      and "map_sum id (cells h2) out2
          = reedSolomonComputeRemainder (cells h' data2) (cells h' divisor)"
      by blast
    moreover have "cells h' data2 = cells h data2" using frame that by simp
    ultimately show ?thesis using d \<open>divisor < next_ref h'\<close> by auto
  qed
  with run d frame res show ?thesis by blast
qed

theorem reedSolomonComputeRemainder_divisor_unchanged_witness:
  "\<exists>out h'. reedSolomonComputeRemainder_st 0 1 sample_heap = Some (out, h')
     \<and> cells h' 1 = [127, 122, 154]
     \<and> map_sum id (cells h') out = reedSolomonComputeRemainder [32, 91, 11] [127, 122, 154]"
  using reedSolomonComputeRemainder_divisor_unchanged [of 0 sample_heap 1]
  by (auto simp add: sample_heap_def)

end
